theory Spec2Isabelle
  imports Complex_Main "HOL-Library.Sublist" "HOL-Library.Multiset"
begin

section \<open>JavaScript strings\<close>

text \<open>
  A string of the program is a sequence of code units. The model covers the code units
  below 256 (ASCII and Latin-1), one \<^typ>\<open>char\<close> each, so that \<open>length\<close> is the
  program's \<open>.length\<close>. The white space of \<open>\s\<close> and of \<open>trim()\<close> in that range is
  TAB, LF, VT, FF, CR, SPACE and NBSP.
\<close>

definition is_space :: "char \<Rightarrow> bool" where
  "is_space c \<longleftrightarrow> c = CHR 0x09 \<or> c = CHR 0x0A \<or> c = CHR 0x0B \<or> c = CHR 0x0C
     \<or> c = CHR 0x0D \<or> c = CHR 0x20 \<or> c = CHR 0xA0"

definition is_digit :: "char \<Rightarrow> bool" where
  "is_digit c \<longleftrightarrow> (48::nat) \<le> of_char c \<and> of_char c \<le> (57::nat)"

definition is_upper :: "char \<Rightarrow> bool" where
  "is_upper c \<longleftrightarrow> (65::nat) \<le> of_char c \<and> of_char c \<le> (90::nat)"

definition is_lower :: "char \<Rightarrow> bool" where
  "is_lower c \<longleftrightarrow> (97::nat) \<le> of_char c \<and> of_char c \<le> (122::nat)"

text \<open>The class \<open>\w\<close>: letters, digits and the underscore.\<close>

definition is_word :: "char \<Rightarrow> bool" where
  "is_word c \<longleftrightarrow> is_upper c \<or> is_lower c \<or> is_digit c \<or> c = CHR ''_''"

text \<open>
  \<open>toLowerCase()\<close> on one code unit: A to Z, and the Latin-1 capitals 0xC0 to 0xDE
  except the multiplication sign 0xD7, move up by 32.
\<close>

definition lower_char :: "char \<Rightarrow> char" where
  "lower_char c =
     (let n = (of_char c :: nat)
      in if (65 \<le> n \<and> n \<le> 90) \<or> (192 \<le> n \<and> n \<le> 222 \<and> n \<noteq> 215)
         then char_of (n + 32) else c)"

definition toLowerCase :: "string \<Rightarrow> string" where
  "toLowerCase s = map lower_char s"

definition trim :: "string \<Rightarrow> string" where
  "trim s = rev (dropWhile is_space (rev (dropWhile is_space s)))"

text \<open>\<open>text.includes(s)\<close> and \<open>text.startsWith(s)\<close>.\<close>

definition includes_str :: "string \<Rightarrow> string \<Rightarrow> bool" where
  "includes_str text s \<longleftrightarrow> sublist s text"

definition startsWith :: "string \<Rightarrow> string \<Rightarrow> bool" where
  "startsWith text s \<longleftrightarrow> prefix s text"

text \<open>
  \<open>text.split(sep)\<close> for a separator of one character: the pieces between the
  separators, empty pieces kept, and one empty piece for the empty string.
\<close>

fun split_char :: "char \<Rightarrow> string \<Rightarrow> string list" where
  "split_char sep [] = [[]]"
| "split_char sep (c # cs) =
     (if c = sep then [] # split_char sep cs
      else (case split_char sep cs of
              [] \<Rightarrow> [[c]]
            | p # ps \<Rightarrow> (c # p) # ps))"

text \<open>\<open>xs[i]\<close> on an array: \<open>undefined\<close> out of range.\<close>

definition nth_opt :: "'a list \<Rightarrow> nat \<Rightarrow> 'a option" where
  "nth_opt xs i = (if i < length xs then Some (xs ! i) else None)"

text \<open>\<open>line.split('|')[2]?.trim() || ''\<close> and \<open>line.split('|')[2] || ''\<close>.\<close>

definition cell_trimmed :: "string \<Rightarrow> string" where
  "cell_trimmed line =
     (case nth_opt (split_char (CHR ''|'') line) 2 of None \<Rightarrow> [] | Some s \<Rightarrow> trim s)"

definition cell_raw :: "string \<Rightarrow> string" where
  "cell_raw line =
     (case nth_opt (split_char (CHR ''|'') line) 2 of None \<Rightarrow> [] | Some s \<Rightarrow> s)"

text \<open>
  \<open>text.split(/\s+/)\<close>: the text is cut at every maximal run of white space. The
  first argument is the piece being read, reversed.
\<close>

function split_ws :: "string \<Rightarrow> string \<Rightarrow> string list" where
  "split_ws acc [] = [rev acc]"
| "split_ws acc (c # cs) =
     (if is_space c then rev acc # split_ws [] (dropWhile is_space cs)
      else split_ws (c # acc) cs)"
  by pat_completeness auto
termination
  by (relation "measure (\<lambda>(acc, s). length s)")
     (auto simp: length_dropWhile_le less_Suc_eq_le)

section \<open>The data model\<close>

datatype complexity = Low | Medium | High

record author =
  name :: string
  github :: string

text \<open>
  The interface \<open>LocalACP\<close>. A field declared with \<open>?\<close> is an option: \<open>None\<close> is
  the missing or \<open>undefined\<close> property.
\<close>

record LocalACP =
  number :: string
  title :: string
  authors :: "author list"
  status :: string
  track :: string
  content :: string
  discussion :: "string option"
  abstract :: "string option"
  complexity :: "complexity option"
  tags :: "string list option"
  wordCount :: "nat option"
  readingTime :: "nat option"
  lastUpdated :: "string option"
  dependencies :: "string list option"
  replaces :: "string list option"
  supersededBy :: "string list option"

section \<open>The field parsers\<close>

subsection \<open>parseAuthors\<close>

text \<open>
  \<open>text.split(/,|\sand\s/)\<close>: a cut at every comma and at every \<open>and\<close> that has one
  white-space character on each side (both are consumed). The first argument is the
  piece being read, reversed.
\<close>

fun split_authors :: "string \<Rightarrow> string \<Rightarrow> string list" where
  "split_authors acc [] = [rev acc]"
| "split_authors acc (c # cs) =
     (if c = CHR '','' then rev acc # split_authors [] cs
      else if is_space c \<and> take 3 cs = ''and'' \<and> (case drop 3 cs of [] \<Rightarrow> False | d # _ \<Rightarrow> is_space d)
           then rev acc # split_authors [] (drop 4 cs)
      else split_authors (c # acc) cs)"

text \<open>
  \<open>[^)]+\)\<close> at the start of \<open>s\<close>: the characters up to the first closing
  parenthesis, at least one, and the parenthesis must be there.
\<close>

definition close_body :: "string \<Rightarrow> string option" where
  "close_body s =
     (let g = takeWhile (\<lambda>c. c \<noteq> CHR '')'') s
      in if g \<noteq> [] \<and> dropWhile (\<lambda>c. c \<noteq> CHR '')'') s \<noteq> [] then Some g else None)"

text \<open>
  The optional group \<open>(?:\s*\([@]?([^)]+)\))?\<close> at the start of \<open>r\<close>: the value of
  its capture, \<open>None\<close> when the group does not take part. The \<open>@\<close> is consumed first and
  given back when the rest fails without it.
\<close>

definition author_handle :: "string \<Rightarrow> string option" where
  "author_handle r =
     (case dropWhile is_space r of
        [] \<Rightarrow> None
      | p # b \<Rightarrow>
          if p \<noteq> CHR ''('' then None
          else (case b of
                  [] \<Rightarrow> None
                | a # b' \<Rightarrow>
                    if a = CHR ''@''
                    then (case close_body b' of Some g \<Rightarrow> Some g | None \<Rightarrow> close_body b)
                    else close_body b))"

definition author_name_char :: "char \<Rightarrow> bool" where
  "author_name_char c \<longleftrightarrow> c \<noteq> CHR ''('' \<and> c \<noteq> CHR ''@'' \<and> c \<noteq> CHR 0x0A"

text \<open>
  \<open>part.match(/([^(@\n]+)(?:\s*\([@]?([^)]+)\))?/)\<close>: the match starts at the first
  character that may stand in a name, the first capture is the longest run of such
  characters, the second capture is the handle.
\<close>

definition authorMatch :: "string \<Rightarrow> (string \<times> string option) option" where
  "authorMatch part =
     (let s = dropWhile (\<lambda>c. \<not> author_name_char c) part
      in if s = [] then None
         else Some (takeWhile author_name_char s, author_handle (dropWhile author_name_char s)))"

text \<open>\<open>s.replace('@', '')\<close>: the first \<open>@\<close> is removed.\<close>

definition remove_first_at :: "string \<Rightarrow> string" where
  "remove_first_at s = remove1 (CHR ''@'') s"

text \<open>\<open>s.replace(/\s+/g, '')\<close>: all white space is removed.\<close>

definition remove_spaces :: "string \<Rightarrow> string" where
  "remove_spaces s = filter (\<lambda>c. \<not> is_space c) s"

text \<open>One round of the \<open>forEach\<close> of parseAuthors: the authors this part pushes.\<close>

definition author_of_part :: "string \<Rightarrow> author list" where
  "author_of_part part =
     (case authorMatch part of
        None \<Rightarrow> []
      | Some (g1, g2) \<Rightarrow>
          if g1 = [] then []
          else (let nm = trim g1;
                    handle = (case g2 of None \<Rightarrow> [] | Some h \<Rightarrow> remove_first_at (trim h));
                    gh = (if handle \<noteq> [] then handle else remove_spaces (toLowerCase nm))
                in if nm \<noteq> [] \<and> nm \<noteq> ''**Author(s)**''
                   then [\<lparr>name = nm, github = gh\<rparr>] else []))"

definition parseAuthors :: "string \<Rightarrow> author list" where
  "parseAuthors text = concat (map author_of_part (map trim (split_authors [] text)))"

subsection \<open>parseStatus\<close>

text \<open>\<open>\[([^\]]+)\]\<close> at the start of \<open>s\<close>: the label between the brackets.\<close>

definition bracket_label :: "string \<Rightarrow> string option" where
  "bracket_label s =
     (case s of
        [] \<Rightarrow> None
      | c # cs \<Rightarrow>
          (let g = takeWhile (\<lambda>x. x \<noteq> CHR '']'') cs
           in if c = CHR ''['' \<and> g \<noteq> [] \<and> dropWhile (\<lambda>x. x \<noteq> CHR '']'') cs \<noteq> []
              then Some g else None))"

text \<open>
  \<open>text.match(/\[([^\]]+)\]|\b(\w+)\b/)\<close>: the two captures of the leftmost match.
  At each position the bracket alternative is tried first, then the word alternative,
  which needs a word boundary: the character before (\<open>prev\<close>) is not a word character.
\<close>

fun statusMatch :: "char option \<Rightarrow> string \<Rightarrow> (string option \<times> string option) option" where
  "statusMatch prev [] = None"
| "statusMatch prev (c # cs) =
     (case bracket_label (c # cs) of
        Some g \<Rightarrow> Some (Some g, None)
      | None \<Rightarrow>
          if is_word c \<and> (case prev of None \<Rightarrow> True | Some p \<Rightarrow> \<not> is_word p)
          then Some (None, Some (takeWhile is_word (c # cs)))
          else statusMatch (Some c) cs)"

text \<open>\<open>a || b\<close> on a capture and a default: an empty or missing capture is falsy.\<close>

definition or_else :: "string option \<Rightarrow> string \<Rightarrow> string" where
  "or_else a b = (case a of None \<Rightarrow> b | Some s \<Rightarrow> if s = [] then b else s)"

definition parseStatus :: "string \<Rightarrow> string" where
  "parseStatus text =
     (let m = statusMatch None text;
          g1 = (case m of None \<Rightarrow> None | Some (a, b) \<Rightarrow> a);
          g2 = (case m of None \<Rightarrow> None | Some (a, b) \<Rightarrow> b)
      in trim (or_else g1 (or_else g2 ''Unknown'')))"

subsection \<open>parseDiscussionLink and parseACPReferences\<close>

text \<open>\<open>text.match(/\[Discussion\]\(([^)]+)\)/)?.[1]\<close>.\<close>

fun parseDiscussionLink :: "string \<Rightarrow> string option" where
  "parseDiscussionLink [] = None"
| "parseDiscussionLink (c # cs) =
     (if prefix ''[Discussion]('' (c # cs)
      then (case close_body (drop 12 cs) of
              Some g \<Rightarrow> Some g
            | None \<Rightarrow> parseDiscussionLink cs)
      else parseDiscussionLink cs)"

text \<open>\<open>text.match(/ACP-(\d+)/g)\<close>: every match, left to right, without overlap.\<close>

function acp_matches :: "string \<Rightarrow> string list" where
  "acp_matches [] = []"
| "acp_matches (c # cs) =
     (if prefix ''ACP-'' (c # cs) \<and> takeWhile is_digit (drop 3 cs) \<noteq> []
      then (''ACP-'' @ takeWhile is_digit (drop 3 cs)) # acp_matches (dropWhile is_digit (drop 3 cs))
      else acp_matches cs)"
  by pat_completeness auto
termination
  by (relation "measure length")
     (auto simp: less_Suc_eq_le intro: order_trans [OF length_dropWhile_le])

text \<open>\<open>match.replace('ACP-', '')\<close> on a match, which starts with that prefix.\<close>

definition parseACPReferences :: "string \<Rightarrow> string list" where
  "parseACPReferences text = map (drop 4) (acp_matches text)"

section \<open>The derived attributes\<close>

subsection \<open>extractAbstract\<close>

text \<open>
  \<open>markdown.match(/##\s*Abstract\s*\n\n([^#]+)/i)\<close>, in three steps.
  After the word \<open>Abstract\<close>, \<open>\s*\<close> first takes the whole run of white space and gives
  characters back one at a time until two line feeds and a character other than \<open>#\<close>
  follow: \<open>abstract_ws r j\<close> tries \<open>j\<close> characters of white space, then fewer.
\<close>

definition abstract_body :: "string \<Rightarrow> nat \<Rightarrow> string option" where
  "abstract_body r j =
     (let g = takeWhile (\<lambda>c. c \<noteq> CHR ''#'') (drop (j + 2) r)
      in if take 2 (drop j r) = [CHR 0x0A, CHR 0x0A] \<and> g \<noteq> [] then Some g else None)"

fun abstract_ws :: "string \<Rightarrow> nat \<Rightarrow> string option" where
  "abstract_ws r 0 = abstract_body r 0"
| "abstract_ws r (Suc j) =
     (case abstract_body r (Suc j) of Some g \<Rightarrow> Some g | None \<Rightarrow> abstract_ws r j)"

text \<open>The whole pattern at the start of \<open>s\<close>; the flag \<open>i\<close> makes the word match in any case.\<close>

definition abstract_at :: "string \<Rightarrow> string option" where
  "abstract_at s =
     (if prefix ''##'' s
      then (let r1 = dropWhile is_space (drop 2 s)
            in if toLowerCase (take 8 r1) = ''abstract''
               then abstract_ws (drop 8 r1) (length (takeWhile is_space (drop 8 r1)))
               else None)
      else None)"

text \<open>The leftmost match: its capture.\<close>

fun abstractMatch :: "string \<Rightarrow> string option" where
  "abstractMatch [] = None"
| "abstractMatch (c # cs) =
     (case abstract_at (c # cs) of Some g \<Rightarrow> Some g | None \<Rightarrow> abstractMatch cs)"

text \<open>\<open>s.lastIndexOf(c)\<close>: \<open>-1\<close> when \<open>c\<close> does not occur.\<close>

definition lastIndexOf :: "string \<Rightarrow> char \<Rightarrow> int" where
  "lastIndexOf s c =
     (if c \<in> set s then int (length s) - 1 - int (length (takeWhile (\<lambda>x. x \<noteq> c) (rev s)))
      else - 1)"

text \<open>The branch of extractAbstract taken when the heading is found.\<close>

definition abstract_of_section :: "string \<Rightarrow> string" where
  "abstract_of_section g =
     (let abstract = trim g
      in if length abstract > 200
         then (let truncated = take 200 abstract;
                   lastSpace = lastIndexOf truncated (CHR '' '')
               in take (if lastSpace > 0 then nat lastSpace else 200) truncated @ ''...'')
         else abstract)"

text \<open>
  The fallback loop over the lines; \<open>afterTable\<close> is its flag. \<open>Some\<close> is the value of
  the \<open>return\<close> inside the loop, \<open>None\<close> is the loop left by \<open>break\<close> or at its end.
\<close>

fun abstract_fallback :: "bool \<Rightarrow> string list \<Rightarrow> string option" where
  "abstract_fallback afterTable [] = None"
| "abstract_fallback afterTable (line # rest) =
     (if startsWith line ''##'' \<and> afterTable then None
      else if includes_str line ''| **Track** |'' then abstract_fallback True rest
      else if afterTable \<and> trim line \<noteq> [] \<and> \<not> startsWith line ''|'' \<and> \<not> startsWith line ''#''
           then Some (if length line > 200 then take 200 line @ ''...'' else line)
      else abstract_fallback afterTable rest)"

definition extractAbstract :: "string \<Rightarrow> string" where
  "extractAbstract markdown =
     (case abstractMatch markdown of
        Some g \<Rightarrow> abstract_of_section g
      | None \<Rightarrow>
          (case abstract_fallback False (split_char (CHR 0x0A) markdown) of
             Some l \<Rightarrow> l
           | None \<Rightarrow> []))"

subsection \<open>countWords, estimateComplexity, extractTags\<close>

definition countWords :: "string \<Rightarrow> nat" where
  "countWords text = length (filter (\<lambda>word. length word > 0) (split_ws [] text))"

definition highComplexityKeywords :: "string list" where
  "highComplexityKeywords =
     [''consensus'', ''protocol'', ''cryptographic'', ''algorithm'', ''byzantine'',
      ''merkle'', ''signature'', ''verification'', ''validator'', ''staking'']"

definition mediumComplexityKeywords :: "string list" where
  "mediumComplexityKeywords =
     [''implementation'', ''specification'', ''interface'', ''architecture'',
      ''network'', ''node'', ''transaction'', ''block'']"

definition estimateComplexity :: "string \<Rightarrow> nat \<Rightarrow> complexity" where
  "estimateComplexity markdown wc =
     (let content = toLowerCase markdown;
          highKeywordCount = length (filter (\<lambda>keyword. includes_str content keyword) highComplexityKeywords);
          mediumKeywordCount = length (filter (\<lambda>keyword. includes_str content keyword) mediumComplexityKeywords)
      in if wc > 4000 \<or> highKeywordCount \<ge> 3 then High
         else if wc > 2000 \<or> highKeywordCount \<ge> 1 \<or> mediumKeywordCount \<ge> 3 then Medium
         else Low)"

definition tagMap :: "(string \<times> string list) list" where
  "tagMap =
     [(''subnet'', [''subnet'', ''subnets'', ''l1'']),
      (''consensus'', [''consensus'', ''validator'', ''staking'']),
      (''teleporter'', [''teleporter'', ''messaging'', ''interchain'']),
      (''security'', [''security'', ''cryptographic'', ''signature'']),
      (''performance'', [''performance'', ''optimization'', ''efficiency'']),
      (''api'', [''api'', ''interface'', ''rpc'']),
      (''governance'', [''governance'', ''voting'', ''proposal'']),
      (''economics'', [''economics'', ''fee'', ''reward'', ''token'']),
      (''networking'', [''network'', ''peer'', ''connection'', ''protocol'']),
      (''virtual-machine'', [''vm'', ''virtual machine'', ''evm''])]"

definition extractTags :: "string \<Rightarrow> string \<Rightarrow> string list" where
  "extractTags markdown ttl =
     (let content = toLowerCase (markdown @ '' '' @ ttl)
      in take 5 (map fst (filter (\<lambda>(tag, keywords). list_ex (\<lambda>keyword. includes_str content keyword) keywords) tagMap)))"

section \<open>parseACPMarkdown\<close>

text \<open>
  \<open>/\/(\d+)-[^/]+\/README\.md$/\<close> after a slash: the digits, a hyphen, a folder name
  without a slash, and \<open>/README.md\<close> up to the end of the path.
\<close>

definition number_tail :: "string \<Rightarrow> string option" where
  "number_tail s =
     (let d = takeWhile is_digit s; r = dropWhile is_digit s
      in case r of
           [] \<Rightarrow> None
         | h # r' \<Rightarrow>
             if d \<noteq> [] \<and> h = CHR ''-'' \<and> takeWhile (\<lambda>c. c \<noteq> CHR ''/'') r' \<noteq> []
                \<and> dropWhile (\<lambda>c. c \<noteq> CHR ''/'') r' = ''/README.md''
             then Some d else None)"

text \<open>\<open>filePath.match(...)\<close>: the first capture of the leftmost match.\<close>

fun numberMatch :: "string \<Rightarrow> string option" where
  "numberMatch [] = None"
| "numberMatch (c # cs) =
     (if c = CHR ''/''
      then (case number_tail cs of Some d \<Rightarrow> Some d | None \<Rightarrow> numberMatch cs)
      else numberMatch cs)"

text \<open>The local variables of the table scan.\<close>

record table_fields =
  f_title :: string
  f_authors :: "author list"
  f_status :: string
  f_track :: string
  f_discussion :: "string option"
  f_dependencies :: "string list"
  f_replaces :: "string list"
  f_supersededBy :: "string list"
  f_inTable :: bool

definition init_fields :: table_fields where
  "init_fields =
     \<lparr>f_title = [], f_authors = [], f_status = [], f_track = [], f_discussion = Some [],
      f_dependencies = [], f_replaces = [], f_supersededBy = [], f_inTable = False\<rparr>"

text \<open>The chain of \<open>if ... else if\<close> on one row of the table.\<close>

definition table_row :: "table_fields \<Rightarrow> string \<Rightarrow> table_fields" where
  "table_row s line =
     (if includes_str line ''| **Title** |'' then s\<lparr>f_title := cell_trimmed line\<rparr>
      else if includes_str line ''| **Author(s)** |'' then s\<lparr>f_authors := parseAuthors (cell_raw line)\<rparr>
      else if includes_str line ''| **Status** |''
           then s\<lparr>f_status := parseStatus (cell_raw line),
                   f_discussion := parseDiscussionLink (cell_raw line)\<rparr>
      else if includes_str line ''| **Track** |'' then s\<lparr>f_track := cell_trimmed line\<rparr>
      else if includes_str line ''| **Depends-On** |''
           then s\<lparr>f_dependencies := parseACPReferences (cell_raw line)\<rparr>
      else if includes_str line ''| **Replaces** |''
           then s\<lparr>f_replaces := parseACPReferences (cell_raw line)\<rparr>
      else if includes_str line ''| **Superseded-By** |''
           then s\<lparr>f_supersededBy := parseACPReferences (cell_raw line)\<rparr>
      else s)"

text \<open>The header row of the metadata table.\<close>

definition is_header :: "string \<Rightarrow> bool" where
  "is_header line \<longleftrightarrow> startsWith line ''| ACP |'' \<or> includes_str line ''| **ACP** |''"

text \<open>The loop over the lines: \<open>continue\<close> goes to the next line, \<open>break\<close> ends the scan.\<close>

fun scan_table :: "table_fields \<Rightarrow> string list \<Rightarrow> table_fields" where
  "scan_table s [] = s"
| "scan_table s (line # rest) =
     (if trim line = [] then scan_table s rest
      else if is_header line then scan_table (s\<lparr>f_inTable := True\<rparr>) rest
      else if \<not> f_inTable s then scan_table s rest
      else if startsWith line ''##'' then s
      else scan_table (table_row s line) rest)"

text \<open>\<open>Math.ceil(wordCount / 200)\<close>.\<close>

definition reading_time :: "nat \<Rightarrow> nat" where
  "reading_time wc = nat \<lceil>real wc / 200\<rceil>"

text \<open>
  No step of the body throws on a string, so the \<open>catch\<close> branch, which also returns
  \<open>null\<close>, is never entered; \<open>None\<close> is the result \<open>null\<close>.
\<close>

definition parseACPMarkdown :: "string \<Rightarrow> string \<Rightarrow> LocalACP option" where
  "parseACPMarkdown markdown filePath =
     (case numberMatch filePath of
        None \<Rightarrow> None
      | Some num \<Rightarrow>
          (let s = scan_table init_fields (split_char (CHR 0x0A) markdown)
           in if f_title s = [] \<or> f_status s = [] \<or> f_track s = [] then None
              else (let wc = countWords markdown
                    in Some \<lparr>number = num, title = f_title s, authors = f_authors s,
                             status = f_status s, track = f_track s, content = markdown,
                             discussion = f_discussion s,
                             abstract = Some (extractAbstract markdown),
                             complexity = Some (estimateComplexity markdown wc),
                             tags = Some (extractTags markdown (f_title s)),
                             wordCount = Some wc,
                             readingTime = Some (reading_time wc),
                             lastUpdated = None,
                             dependencies = Some (f_dependencies s),
                             replaces = Some (f_replaces s),
                             supersededBy = Some (f_supersededBy s)\<rparr>)))"

section \<open>The query functions\<close>

subsection \<open>searchACPs\<close>

text \<open>\<open>x?.f()\<close> on an optional field: a missing field gives \<open>undefined\<close>, which is falsy.\<close>

definition opt_test :: "'a option \<Rightarrow> ('a \<Rightarrow> bool) \<Rightarrow> bool" where
  "opt_test x p = (case x of None \<Rightarrow> False | Some v \<Rightarrow> p v)"

definition search_match :: "string \<Rightarrow> LocalACP \<Rightarrow> bool" where
  "search_match searchTerm acp \<longleftrightarrow>
     includes_str (number acp) searchTerm \<or>
     includes_str (toLowerCase (title acp)) searchTerm \<or>
     list_ex (\<lambda>a. includes_str (toLowerCase (name a)) searchTerm) (authors acp) \<or>
     includes_str (toLowerCase (status acp)) searchTerm \<or>
     includes_str (toLowerCase (track acp)) searchTerm \<or>
     opt_test (abstract acp) (\<lambda>a. includes_str (toLowerCase a) searchTerm) \<or>
     opt_test (tags acp) (list_ex (\<lambda>tag. includes_str (toLowerCase tag) searchTerm))"

definition searchACPs :: "LocalACP list \<Rightarrow> string \<Rightarrow> LocalACP list" where
  "searchACPs acps query =
     (if trim query = [] then acps
      else filter (search_match (toLowerCase query)) acps)"

subsection \<open>sortACPs\<close>

text \<open>
  \<open>Array.prototype.sort\<close> with a comparator. The sort is stable; an element \<open>a\<close> stays
  before \<open>b\<close> unless the comparator is positive on them. For a consistent comparator
  the result does not depend on the engine's algorithm, and is the one of this insertion
  sort. A comparator value \<open>NaN\<close> is read as \<open>0\<close>.
\<close>

fun sort_insert :: "('a \<Rightarrow> 'a \<Rightarrow> int) \<Rightarrow> 'a \<Rightarrow> 'a list \<Rightarrow> 'a list" where
  "sort_insert cmp x [] = [x]"
| "sort_insert cmp x (y # ys) =
     (if cmp x y \<le> 0 then x # y # ys else y # sort_insert cmp x ys)"

fun array_sort :: "('a \<Rightarrow> 'a \<Rightarrow> int) \<Rightarrow> 'a list \<Rightarrow> 'a list" where
  "array_sort cmp [] = []"
| "array_sort cmp (x # xs) = sort_insert cmp x (array_sort cmp xs)"

text \<open>
  \<open>Number(s)\<close> on the identifiers that the path pattern yields, the non-empty strings
  of decimal digits: the integer that the digits denote, which is the floating-point
  value as long as it is below \<open>2^53\<close>. The theorems keep to that range (\<open>numeric_ids\<close>,
  \<open>exact_ids\<close>). Any other string is outside this model and is read as \<open>NaN\<close>
  (\<open>None\<close>).
\<close>

definition digits_value :: "string \<Rightarrow> nat" where
  "digits_value s = foldl (\<lambda>n c. 10 * n + (of_char c - 48)) 0 s"

definition Number :: "string \<Rightarrow> int option" where
  "Number s = (if s \<noteq> [] \<and> list_all is_digit s then Some (int (digits_value s)) else None)"

text \<open>\<open>Number(x) - Number(y)\<close>, with \<open>NaN\<close> already read as \<open>0\<close>.\<close>

definition number_diff :: "string \<Rightarrow> string \<Rightarrow> int" where
  "number_diff x y = (case (Number x, Number y) of (Some m, Some n) \<Rightarrow> m - n | _ \<Rightarrow> 0)"

datatype sort_key = ByNumber | ByTitle | ByStatus | ByComplexity

datatype sort_order = Asc | Desc

text \<open>\<open>complexityOrder[c || 'Low']\<close>.\<close>

definition complexityOrder :: "complexity option \<Rightarrow> int" where
  "complexityOrder c = (case c of None \<Rightarrow> 1 | Some Low \<Rightarrow> 1 | Some Medium \<Rightarrow> 2 | Some High \<Rightarrow> 3)"

text \<open>
  The \<open>switch\<close> of the comparator. \<open>localeCompare\<close> belongs to the host; it is the
  parameter \<open>lc\<close>.
\<close>

definition comparison :: "(string \<Rightarrow> string \<Rightarrow> int) \<Rightarrow> sort_key \<Rightarrow> LocalACP \<Rightarrow> LocalACP \<Rightarrow> int" where
  "comparison lc sortBy a b =
     (case sortBy of
        ByNumber \<Rightarrow> number_diff (number a) (number b)
      | ByTitle \<Rightarrow> lc (title a) (title b)
      | ByStatus \<Rightarrow> lc (status a) (status b)
      | ByComplexity \<Rightarrow> complexityOrder (complexity a) - complexityOrder (complexity b))"

definition sort_cmp :: "(string \<Rightarrow> string \<Rightarrow> int) \<Rightarrow> sort_key \<Rightarrow> sort_order \<Rightarrow> LocalACP \<Rightarrow> LocalACP \<Rightarrow> int" where
  "sort_cmp lc sortBy order a b =
     (if order = Desc then - comparison lc sortBy a b else comparison lc sortBy a b)"

definition sortACPs :: "(string \<Rightarrow> string \<Rightarrow> int) \<Rightarrow> LocalACP list \<Rightarrow> sort_key \<Rightarrow> sort_order \<Rightarrow> LocalACP list" where
  "sortACPs lc acps sortBy order = array_sort (sort_cmp lc sortBy order) acps"

text \<open>
  The same function on a store of arrays, an array reference being an index of the
  store: \<open>[...acps]\<close> allocates a copy, and \<open>sort\<close> works in place on the copy.
\<close>

type_synonym store = "LocalACP list list"

definition spread :: "store \<Rightarrow> nat \<Rightarrow> store \<times> nat" where
  "spread h r = (h @ [h ! r], length h)"

definition sort_in_place :: "(LocalACP \<Rightarrow> LocalACP \<Rightarrow> int) \<Rightarrow> store \<Rightarrow> nat \<Rightarrow> store \<times> nat" where
  "sort_in_place cmp h r = (h[r := array_sort cmp (h ! r)], r)"

definition sortACPs_store :: "(string \<Rightarrow> string \<Rightarrow> int) \<Rightarrow> store \<Rightarrow> nat \<Rightarrow> sort_key \<Rightarrow> sort_order \<Rightarrow> store \<times> nat" where
  "sortACPs_store lc h acps sortBy order =
     (let (h1, copy) = spread h acps
      in sort_in_place (sort_cmp lc sortBy order) h1 copy)"

text \<open>
  A collation to run the functions with: the comparison of the code units, first
  difference first.
\<close>

fun codeunit_compare :: "string \<Rightarrow> string \<Rightarrow> int" where
  "codeunit_compare [] [] = 0"
| "codeunit_compare [] (y # ys) = - 1"
| "codeunit_compare (x # xs) [] = 1"
| "codeunit_compare (x # xs) (y # ys) =
     (if (of_char x :: nat) < of_char y then - 1
      else if (of_char y :: nat) < of_char x then 1
      else codeunit_compare xs ys)"

section \<open>The cache\<close>

text \<open>
  The loop of getAllLocalACPs over the entries of \<open>acpFiles\<close>, a path and what its
  loader gives: \<open>None\<close> is a loader that fails, which the inner \<open>catch\<close> skips.
\<close>

fun load_acps :: "(string \<times> string option) list \<Rightarrow> LocalACP list" where
  "load_acps [] = []"
| "load_acps ((path, loaded) # rest) =
     (case loaded of
        None \<Rightarrow> load_acps rest
      | Some markdown \<Rightarrow>
          (case parseACPMarkdown markdown path of
             None \<Rightarrow> load_acps rest
           | Some acp \<Rightarrow> acp # load_acps rest))"

text \<open>
  getAllLocalACPs on the module variable \<open>cachedACPs\<close>: the result and the new value of
  the variable. An array is truthy, also when it is empty. Nothing outside the inner
  \<open>try\<close> throws, so the outer \<open>catch\<close> is never entered.
\<close>

definition getAllLocalACPs ::
  "(string \<times> string option) list \<Rightarrow> LocalACP list option \<Rightarrow> LocalACP list \<times> LocalACP list option" where
  "getAllLocalACPs acpFiles cachedACPs =
     (case cachedACPs of
        Some c \<Rightarrow> (c, Some c)
      | None \<Rightarrow>
          (let acps = array_sort (\<lambda>a b. number_diff (number b) (number a)) (load_acps acpFiles)
           in (acps, Some acps)))"

definition getACPByNumber ::
  "(string \<times> string option) list \<Rightarrow> LocalACP list option \<Rightarrow> string \<Rightarrow> LocalACP option \<times> LocalACP list option" where
  "getACPByNumber acpFiles cachedACPs n =
     (let (acps, cache) = getAllLocalACPs acpFiles cachedACPs
      in (find (\<lambda>acp. number acp = n) acps, cache))"

section \<open>The specification's notions\<close>

text \<open>
  The white-space-delimited non-empty tokens of a text: its maximal runs of characters
  that are not white space.
\<close>

function tokens :: "string \<Rightarrow> string list" where
  "tokens s =
     (case dropWhile is_space s of
        [] \<Rightarrow> []
      | c # cs \<Rightarrow> takeWhile (\<lambda>x. \<not> is_space x) (c # cs) # tokens (dropWhile (\<lambda>x. \<not> is_space x) cs))"
  by pat_completeness auto
termination
proof (relation "measure length", goal_cases)
  case 1
  show ?case by simp
next
  case (2 s c cs)
  have "length (dropWhile (\<lambda>x. \<not> is_space x) cs) \<le> length cs"
    by (rule length_dropWhile_le)
  moreover have "length (c # cs) \<le> length s"
    using 2 length_dropWhile_le [of is_space s] by simp
  ultimately show ?case by simp
qed

declare tokens.simps [simp del]

text \<open>
  The Status rule as the specification words it: the first bracketed label found
  anywhere in the cell, else the first word, else the default.
\<close>

fun first_label :: "string \<Rightarrow> string option" where
  "first_label [] = None"
| "first_label (c # cs) =
     (case bracket_label (c # cs) of Some g \<Rightarrow> Some g | None \<Rightarrow> first_label cs)"

definition first_word :: "string \<Rightarrow> string option" where
  "first_word text =
     (case dropWhile (\<lambda>c. \<not> is_word c) text of
        [] \<Rightarrow> None
      | c # cs \<Rightarrow> Some (takeWhile is_word (c # cs)))"

definition spec_status :: "string \<Rightarrow> string" where
  "spec_status text =
     (case first_label text of
        Some l \<Rightarrow> l
      | None \<Rightarrow> (case first_word text of Some w \<Rightarrow> w | None \<Rightarrow> ''Unknown''))"

text \<open>
  The search rule as the specification words it: the lower-cased query is looked for in
  the fields as they are stored.
\<close>

definition spec_fields :: "LocalACP \<Rightarrow> string list" where
  "spec_fields acp =
     number acp # title acp # map name (authors acp) @ [status acp, track acp]
       @ (case abstract acp of None \<Rightarrow> [] | Some a \<Rightarrow> [a])
       @ (case tags acp of None \<Rightarrow> [] | Some ts \<Rightarrow> ts)"

definition spec_search :: "LocalACP list \<Rightarrow> string \<Rightarrow> LocalACP list" where
  "spec_search acps query =
     (if list_all is_space query then acps
      else filter (\<lambda>acp. list_ex (\<lambda>f. sublist (toLowerCase query) f) (spec_fields acp)) acps)"

text \<open>The texts that the program's search looks into: all but the identifier in lower case.\<close>

definition search_fields :: "LocalACP \<Rightarrow> string list" where
  "search_fields acp =
     number acp # toLowerCase (title acp) # map (\<lambda>a. toLowerCase (name a)) (authors acp)
       @ [toLowerCase (status acp), toLowerCase (track acp)]
       @ (case abstract acp of None \<Rightarrow> [] | Some a \<Rightarrow> [toLowerCase a])
       @ (case tags acp of None \<Rightarrow> [] | Some ts \<Rightarrow> map toLowerCase ts)"

text \<open>
  What the host guarantees of \<open>localeCompare\<close>: a total preorder, read off the sign.
\<close>

definition consistent_compare :: "(string \<Rightarrow> string \<Rightarrow> int) \<Rightarrow> bool" where
  "consistent_compare lc \<longleftrightarrow>
     (\<forall>x. lc x x = 0) \<and> (\<forall>x y. lc x y < 0 \<longleftrightarrow> 0 < lc y x) \<and>
     (\<forall>x y z. lc x y \<le> 0 \<and> lc y z \<le> 0 \<longrightarrow> lc x z \<le> 0)"

text \<open>
  The identifiers of a collection are numerals, as those that extraction gives, and
  their values are in the range where \<open>Number\<close> is exact.
\<close>

definition numeric_ids :: "LocalACP list \<Rightarrow> bool" where
  "numeric_ids acps \<longleftrightarrow>
     (\<forall>a \<in> set acps. number a \<noteq> [] \<and> list_all is_digit (number a) \<and>
                      digits_value (number a) < 2 ^ 53)"

text \<open>The same range for the numbers in the paths of \<open>acpFiles\<close>.\<close>

definition exact_ids :: "(string \<times> string option) list \<Rightarrow> bool" where
  "exact_ids files \<longleftrightarrow>
     (\<forall>(path, loaded) \<in> set files.
        case numberMatch path of None \<Rightarrow> True | Some d \<Rightarrow> digits_value d < 2 ^ 53)"

text \<open>The same conditions on a comparator of any elements, on a set of them.\<close>

definition cmp_preorder :: "'a set \<Rightarrow> ('a \<Rightarrow> 'a \<Rightarrow> int) \<Rightarrow> bool" where
  "cmp_preorder A c \<longleftrightarrow>
     (\<forall>x\<in>A. \<forall>y\<in>A. c x y < 0 \<longleftrightarrow> 0 < c y x) \<and>
     (\<forall>x\<in>A. \<forall>y\<in>A. \<forall>z\<in>A. c x y \<le> 0 \<and> c y z \<le> 0 \<longrightarrow> c x z \<le> 0)"

text \<open>
  The invariant of the module variable \<open>cachedACPs\<close>: when it is set, it holds records
  with numerals for identifiers, in descending order of their values.
\<close>

definition cache_inv :: "LocalACP list option \<Rightarrow> bool" where
  "cache_inv c \<longleftrightarrow>
     (case c of
        None \<Rightarrow> True
      | Some acps \<Rightarrow>
          numeric_ids acps \<and>
          sorted_wrt (\<lambda>a b. digits_value (number b) \<le> digits_value (number a)) acps)"

text \<open>A path segment that starts with a digit.\<close>

definition digit_prefixed :: "string \<Rightarrow> bool" where
  "digit_prefixed seg \<longleftrightarrow> (case seg of [] \<Rightarrow> False | c # _ \<Rightarrow> is_digit c)"

section \<open>Example records and documents\<close>

definition example_acp :: "string \<Rightarrow> string \<Rightarrow> complexity option \<Rightarrow> LocalACP" where
  "example_acp num ttl c =
     \<lparr>number = num, title = ttl, authors = [], status = ''Proposed'', track = ''Standards'',
      content = [], discussion = None, abstract = None, complexity = c, tags = None,
      wordCount = None, readingTime = None, lastUpdated = None, dependencies = None,
      replaces = None, supersededBy = None\<rparr>"

definition example_table :: string where
  "example_table =
     ''| ACP | 42 |\<newline>| **Title** | Example Proposal |\<newline>| **Status** | Proposed |\<newline>| **Track** | Standards |''"

definition example_path :: string where
  "example_path = ''/src/data/acps-source/ACPs/42-example-thing/README.md''"

text \<open>What extraction gives on the example.\<close>

definition example_record :: LocalACP where
  "example_record =
     \<lparr>number = ''42'', title = ''Example Proposal'', authors = [], status = ''Proposed'',
      track = ''Standards'', content = example_table, discussion = None, abstract = Some [],
      complexity = Some Low, tags = Some [''governance''], wordCount = Some 21,
      readingTime = Some 1, lastUpdated = None, dependencies = Some [], replaces = Some [],
      supersededBy = Some []\<rparr>"

definition example_acps :: "LocalACP list" where
  "example_acps = [example_acp ''2'' ''B'' (Some Low), example_acp ''10'' ''A'' (Some Low)]"

text \<open>A document without an Abstract heading whose first line of prose has 252 characters.\<close>

definition long_line :: string where
  "long_line = ''xy'' @ concat (replicate 50 ''abcd '')"

definition long_doc :: string where
  "long_doc = example_table @ [CHR 0x0A] @ long_line"

text \<open>Documents that lack the header row, or one of the required rows.\<close>

definition no_header_doc :: string where
  "no_header_doc =
     ''| **Title** | Example Proposal |\<newline>| **Status** | Proposed |\<newline>| **Track** | Standards |''"

definition no_title_doc :: string where
  "no_title_doc = ''| ACP | 42 |\<newline>| **Status** | Proposed |\<newline>| **Track** | Standards |''"

definition no_status_doc :: string where
  "no_status_doc = ''| ACP | 42 |\<newline>| **Title** | Example Proposal |\<newline>| **Track** | Standards |''"

definition no_track_doc :: string where
  "no_track_doc = ''| ACP | 42 |\<newline>| **Title** | Example Proposal |\<newline>| **Status** | Proposed |''"

text \<open>Two entries of \<open>acpFiles\<close>: a loader that fails, and the example document.\<close>

definition example_files :: "(string \<times> string option) list" where
  "example_files = [(''/src/data/acps-source/ACPs/7-other/README.md'', None),
                    (example_path, Some example_table)]"

section \<open>Facts about the examples\<close>

lemma example_parse: "parseACPMarkdown example_table example_path = Some example_record"
  by code_simp

section \<open>Complexity\<close>

lemma includes_lower_iff:
  "includes_str (toLowerCase text) k \<longleftrightarrow> (\<exists>u. sublist u text \<and> toLowerCase u = k)"
proof
  assume "includes_str (toLowerCase text) k"
  then obtain ps ss where eq: "map lower_char text = ps @ (k @ ss)"
    unfolding includes_str_def toLowerCase_def sublist_def by blast
  from eq [unfolded map_eq_append_conv]
  obtain a r where t: "text = a @ r" and r: "k @ ss = map lower_char r"
    by blast
  from r [symmetric, unfolded map_eq_append_conv]
  obtain u b where rb: "r = u @ b" and ku: "k = map lower_char u"
    by blast
  have "sublist u text" unfolding sublist_def t rb by blast
  with ku show "\<exists>u. sublist u text \<and> toLowerCase u = k"
    unfolding toLowerCase_def by blast
next
  assume "\<exists>u. sublist u text \<and> toLowerCase u = k"
  then obtain u ps ss where t: "text = ps @ u @ ss" and ku: "map lower_char u = k"
    unfolding sublist_def toLowerCase_def by blast
  have "map lower_char text = map lower_char ps @ k @ map lower_char ss"
    unfolding t using ku by simp
  then show "includes_str (toLowerCase text) k"
    unfolding includes_str_def toLowerCase_def sublist_def by blast
qed

lemma distinct_high: "distinct highComplexityKeywords"
  by (simp add: highComplexityKeywords_def)

lemma distinct_medium: "distinct mediumComplexityKeywords"
  by (simp add: mediumComplexityKeywords_def)

lemma count_present:
  assumes d: "distinct ks"
  shows "length (filter (\<lambda>keyword. includes_str (toLowerCase text) keyword) ks)
     = card {k \<in> set ks. \<exists>u. sublist u text \<and> toLowerCase u = k}"
proof -
  have "{k \<in> set ks. \<exists>u. sublist u text \<and> toLowerCase u = k}
          = {k. includes_str (toLowerCase text) k} \<inter> set ks"
    unfolding includes_lower_iff by blast
  then show ?thesis using d by (simp add: distinct_length_filter)
qed

lemma parse_complexity:
  "parseACPMarkdown markdown filePath = Some acp \<Longrightarrow>
   complexity acp = Some (estimateComplexity markdown (countWords markdown))"
  unfolding parseACPMarkdown_def Let_def
  by (cases "numberMatch filePath") (auto split: if_splits)

text \<open>
  Claim C5. estimateComplexity follows the ordered rule: High when the word count is over
  4000 or at least three distinct high-signal keywords occur, in any case, in the text;
  else Medium when the word count is over 2000, or a high-signal keyword occurs, or at
  least three distinct medium-signal keywords occur; else Low. A word count over 4000
  alone gives High, and the record of a document carries the class of its text and of its
  word count.
\<close>

theorem estimateComplexity_rule:
  "estimateComplexity markdown wc =
     (let h = card {k \<in> set highComplexityKeywords. \<exists>u. sublist u markdown \<and> toLowerCase u = k};
          m = card {k \<in> set mediumComplexityKeywords. \<exists>u. sublist u markdown \<and> toLowerCase u = k}
      in if 4000 < wc \<or> 3 \<le> h then High
         else if 2000 < wc \<or> 1 \<le> h \<or> 3 \<le> m then Medium
         else Low)
   \<and> (4000 < wc \<longrightarrow> estimateComplexity markdown wc = High)
   \<and> (parseACPMarkdown markdown filePath = Some acp \<longrightarrow>
        complexity acp = Some (estimateComplexity markdown (countWords markdown)))"
proof (intro conjI impI)
  show "estimateComplexity markdown wc =
     (let h = card {k \<in> set highComplexityKeywords. \<exists>u. sublist u markdown \<and> toLowerCase u = k};
          m = card {k \<in> set mediumComplexityKeywords. \<exists>u. sublist u markdown \<and> toLowerCase u = k}
      in if 4000 < wc \<or> 3 \<le> h then High
         else if 2000 < wc \<or> 1 \<le> h \<or> 3 \<le> m then Medium
         else Low)"
    unfolding estimateComplexity_def Let_def
      count_present [OF distinct_high] count_present [OF distinct_medium] by (rule refl)
next
  assume "4000 < wc"
  then show "estimateComplexity markdown wc = High"
    by (simp add: estimateComplexity_def)
next
  assume "parseACPMarkdown markdown filePath = Some acp"
  then show "complexity acp = Some (estimateComplexity markdown (countWords markdown))"
    by (rule parse_complexity)
qed

theorem estimateComplexity_rule_witness:
  "(4000::nat) < 4500 \<and> estimateComplexity ''plain text'' 4500 = High
   \<and> parseACPMarkdown example_table example_path = Some example_record
   \<and> complexity example_record = Some (estimateComplexity example_table (countWords example_table))"
  using estimateComplexity_rule [of "''plain text''" 4500 example_path example_record]
    estimateComplexity_rule [of example_table 0 example_path example_record]
    example_parse
  by simp

section \<open>Sorting with a comparator\<close>

lemma mset_sort_insert: "mset (sort_insert c x ys) = add_mset x (mset ys)"
  by (induction ys) simp_all

lemma mset_array_sort: "mset (array_sort c xs) = mset xs"
  by (induction xs) (simp_all add: mset_sort_insert)

lemma set_array_sort: "set (array_sort c xs) = set xs"
  using mset_array_sort [of c xs] by (metis set_mset_mset)

lemma filter_sort_insert_neg: "\<not> P x \<Longrightarrow> filter P (sort_insert c x ys) = filter P ys"
  by (induction ys) simp_all

lemma filter_sort_insert_pos:
  "P x \<Longrightarrow> (\<forall>y\<in>set ys. P y \<longrightarrow> c x y \<le> 0) \<Longrightarrow>
   filter P (sort_insert c x ys) = x # filter P ys"
  by (induction ys) auto

lemma cmp_trans:
  "cmp_preorder A c \<Longrightarrow> x \<in> A \<Longrightarrow> y \<in> A \<Longrightarrow> z \<in> A \<Longrightarrow> c x y \<le> 0 \<Longrightarrow> c y z \<le> 0
   \<Longrightarrow> c x z \<le> 0"
  unfolding cmp_preorder_def by blast

lemma cmp_anti:
  "cmp_preorder A c \<Longrightarrow> x \<in> A \<Longrightarrow> y \<in> A \<Longrightarrow> (c x y < 0) = (0 < c y x)"
  unfolding cmp_preorder_def by blast

lemma cmp_preorder_zero_sym:
  assumes p: "cmp_preorder A c" and x: "x \<in> A" and y: "y \<in> A" and z: "c x y = 0"
  shows "c y x = 0"
proof -
  have "(c x y < 0) = (0 < c y x)" and "(c y x < 0) = (0 < c x y)"
    using cmp_anti [OF p x y] cmp_anti [OF p y x] by simp_all
  then show ?thesis using z by simp
qed

lemma cmp_preorder_class:
  assumes p: "cmp_preorder A c" and a: "a \<in> A" and x: "x \<in> A" and y: "y \<in> A"
    and ax: "c a x = 0" and ay: "c a y = 0"
  shows "c x y \<le> 0"
proof -
  have "c x a = 0" using cmp_preorder_zero_sym [OF p a x ax] .
  then show ?thesis using cmp_trans [OF p x a y] ay by simp
qed

lemma array_sort_stable:
  assumes p: "cmp_preorder A c" and a: "a \<in> A"
  shows "set xs \<subseteq> A \<Longrightarrow>
         filter (\<lambda>b. c a b = 0) (array_sort c xs) = filter (\<lambda>b. c a b = 0) xs"
proof (induction xs)
  case Nil
  show ?case by simp
next
  case (Cons x xs)
  then have IH: "filter (\<lambda>b. c a b = 0) (array_sort c xs) = filter (\<lambda>b. c a b = 0) xs"
    and x: "x \<in> A" and sub: "set xs \<subseteq> A" by simp_all
  show ?case
  proof (cases "c a x = 0")
    case False
    then show ?thesis by (simp add: filter_sort_insert_neg IH)
  next
    case True
    have "\<forall>y\<in>set (array_sort c xs). c a y = 0 \<longrightarrow> c x y \<le> 0"
      using cmp_preorder_class [OF p a x _ True] sub by (auto simp: set_array_sort)
    then have "filter (\<lambda>b. c a b = 0) (sort_insert c x (array_sort c xs))
                 = x # filter (\<lambda>b. c a b = 0) (array_sort c xs)"
      using True by (intro filter_sort_insert_pos) simp_all
    then show ?thesis using True IH by simp
  qed
qed

lemma set_sort_insert: "set (sort_insert c x ys) = insert x (set ys)"
  using mset_sort_insert [of c x ys] by (metis set_mset_add_mset_insert set_mset_mset)

lemma sort_insert_strict:
  assumes p: "cmp_preorder A c" and x: "x \<in> A"
  shows "set ys \<subseteq> A \<Longrightarrow> \<forall>y\<in>set ys. c x y \<noteq> 0 \<Longrightarrow>
         sorted_wrt (\<lambda>a b. c a b < 0) ys \<Longrightarrow>
         sorted_wrt (\<lambda>a b. c a b < 0) (sort_insert c x ys)"
proof (induction ys)
  case Nil
  show ?case by simp
next
  case (Cons y ys)
  then have y: "y \<in> A" and sub: "set ys \<subseteq> A" and nz: "\<forall>z\<in>set ys. c x z \<noteq> 0"
    and xy: "c x y \<noteq> 0" and yz: "\<forall>z\<in>set ys. c y z < 0"
    and s: "sorted_wrt (\<lambda>a b. c a b < 0) ys" by simp_all
  have IH: "sorted_wrt (\<lambda>a b. c a b < 0) (sort_insert c x ys)"
    using Cons.IH [OF sub nz s] .
  show ?case
  proof (cases "c x y \<le> 0")
    case True
    have "\<forall>z\<in>set ys. c x z < 0"
    proof
      fix z assume z: "z \<in> set ys"
      then have "c y z < 0" using yz by blast
      then have "c y z \<le> 0" by simp
      moreover have "z \<in> A" using z sub by blast
      ultimately have "c x z \<le> 0" using cmp_trans [OF p x y _ True] by blast
      moreover have "c x z \<noteq> 0" using nz z by blast
      ultimately show "c x z < 0" by simp
    qed
    then show ?thesis using True xy yz s by simp
  next
    case False
    then have "c y x < 0" using cmp_anti [OF p y x] by simp
    then show ?thesis using False yz IH by (simp add: set_sort_insert)
  qed
qed

lemma array_sort_strict:
  assumes p: "cmp_preorder A c"
  shows "set xs \<subseteq> A \<Longrightarrow> sorted_wrt (\<lambda>a b. c a b \<noteq> 0) xs \<Longrightarrow>
         sorted_wrt (\<lambda>a b. c a b < 0) (array_sort c xs)"
proof (induction xs)
  case Nil
  show ?case by simp
next
  case (Cons x xs)
  then have x: "x \<in> A" and sub: "set xs \<subseteq> A" and nz: "\<forall>y\<in>set xs. c x y \<noteq> 0"
    and d: "sorted_wrt (\<lambda>a b. c a b \<noteq> 0) xs" by simp_all
  have "sorted_wrt (\<lambda>a b. c a b < 0) (sort_insert c x (array_sort c xs))"
    using sort_insert_strict [OF p x, of "array_sort c xs"] Cons.IH [OF sub d] sub nz
    by (simp add: set_array_sort)
  then show ?case by simp
qed

lemma sort_insert_last: "\<forall>y\<in>set ys. 0 < c x y \<Longrightarrow> sort_insert c x ys = ys @ [x]"
  by (induction ys) simp_all

lemma array_sort_reverses:
  "sorted_wrt (\<lambda>a b. c a b < 0) xs \<Longrightarrow> array_sort (\<lambda>a b. - c a b) xs = rev xs"
proof (induction xs)
  case Nil
  show ?case by simp
next
  case (Cons x xs)
  then have IH: "array_sort (\<lambda>a b. - c a b) xs = rev xs" and lt: "\<forall>y\<in>set xs. c x y < 0"
    by simp_all
  have "sort_insert (\<lambda>a b. - c a b) x (rev xs) = rev xs @ [x]"
    using lt by (intro sort_insert_last) simp
  then show ?case using IH by simp
qed

lemma sort_insert_sorted:
  assumes p: "cmp_preorder A c" and x: "x \<in> A"
  shows "set ys \<subseteq> A \<Longrightarrow> sorted_wrt (\<lambda>a b. c a b \<le> 0) ys \<Longrightarrow>
         sorted_wrt (\<lambda>a b. c a b \<le> 0) (sort_insert c x ys)"
proof (induction ys)
  case Nil
  show ?case by simp
next
  case (Cons y ys)
  then have y: "y \<in> A" and sub: "set ys \<subseteq> A" and yz: "\<forall>z\<in>set ys. c y z \<le> 0"
    and s: "sorted_wrt (\<lambda>a b. c a b \<le> 0) ys" by simp_all
  have IH: "sorted_wrt (\<lambda>a b. c a b \<le> 0) (sort_insert c x ys)"
    using Cons.IH [OF sub s] .
  show ?case
  proof (cases "c x y \<le> 0")
    case True
    have "\<forall>z\<in>set ys. c x z \<le> 0"
    proof
      fix z assume z: "z \<in> set ys"
      then have "c y z \<le> 0" using yz by blast
      moreover have "z \<in> A" using z sub by blast
      ultimately show "c x z \<le> 0" using cmp_trans [OF p x y _ True] by blast
    qed
    then show ?thesis using True yz s by simp
  next
    case False
    then have "c y x \<le> 0" using cmp_anti [OF p y x] by simp
    then show ?thesis using False yz IH by (simp add: set_sort_insert)
  qed
qed

lemma array_sort_sorted:
  assumes p: "cmp_preorder A c"
  shows "set xs \<subseteq> A \<Longrightarrow> sorted_wrt (\<lambda>a b. c a b \<le> 0) (array_sort c xs)"
proof (induction xs)
  case Nil
  show ?case by simp
next
  case (Cons x xs)
  then show ?case
    using sort_insert_sorted [OF p, of x "array_sort c xs"] by (simp add: set_array_sort)
qed

lemma number_diff_numeric:
  "x \<noteq> [] \<Longrightarrow> list_all is_digit x \<Longrightarrow> y \<noteq> [] \<Longrightarrow> list_all is_digit y \<Longrightarrow>
   number_diff x y = int (digits_value x) - int (digits_value y)"
  by (simp add: number_diff_def Number_def)

lemma lc_preorder:
  assumes lc: "consistent_compare lc"
  shows "cmp_preorder A (\<lambda>a b. lc (f a) (f b))"
proof -
  have a: "\<And>x y. (lc x y < 0) = (0 < lc y x)"
    using lc unfolding consistent_compare_def by blast
  have t: "\<And>x y z. lc x y \<le> 0 \<and> lc y z \<le> 0 \<longrightarrow> lc x z \<le> 0"
    using lc unfolding consistent_compare_def by blast
  show ?thesis unfolding cmp_preorder_def
  proof (intro conjI ballI)
    fix x y
    show "(lc (f x) (f y) < 0) = (0 < lc (f y) (f x))" by (rule a)
  next
    fix x y z
    show "lc (f x) (f y) \<le> 0 \<and> lc (f y) (f z) \<le> 0 \<longrightarrow> lc (f x) (f z) \<le> 0" by (rule t)
  qed
qed

lemma comparison_preorder:
  assumes lc: "consistent_compare lc" and ids: "sortBy = ByNumber \<longrightarrow> numeric_ids X"
  shows "cmp_preorder (set X) (comparison lc sortBy)"
proof (cases sortBy)
  case ByNumber
  then have n: "\<And>a. a \<in> set X \<Longrightarrow> number a \<noteq> [] \<and> list_all is_digit (number a)"
    using ids unfolding numeric_ids_def by blast
  have eq: "\<And>a b. a \<in> set X \<Longrightarrow> b \<in> set X \<Longrightarrow>
          comparison lc sortBy a b = int (digits_value (number a)) - int (digits_value (number b))"
    using n ByNumber by (simp add: comparison_def number_diff_numeric)
  show ?thesis unfolding cmp_preorder_def
  proof (intro conjI ballI impI)
    fix x y assume "x \<in> set X" "y \<in> set X"
    then show "(comparison lc sortBy x y < 0) = (0 < comparison lc sortBy y x)"
      using eq [of x y] eq [of y x] by simp
  next
    fix x y z assume "x \<in> set X" "y \<in> set X" "z \<in> set X"
      and "comparison lc sortBy x y \<le> 0 \<and> comparison lc sortBy y z \<le> 0"
    then show "comparison lc sortBy x z \<le> 0"
      using eq [of x y] eq [of y z] eq [of x z] by simp
  qed
next
  case ByTitle
  have "comparison lc sortBy = (\<lambda>a b. lc (title a) (title b))"
    using ByTitle by (simp add: comparison_def fun_eq_iff)
  then show ?thesis using lc_preorder [OF lc, of "set X" title] by simp
next
  case ByStatus
  have "comparison lc sortBy = (\<lambda>a b. lc (status a) (status b))"
    using ByStatus by (simp add: comparison_def fun_eq_iff)
  then show ?thesis using lc_preorder [OF lc, of "set X" status] by simp
next
  case ByComplexity
  have eq: "\<And>a b. comparison lc sortBy a b = complexityOrder (complexity a) - complexityOrder (complexity b)"
    using ByComplexity by (simp add: comparison_def)
  show ?thesis unfolding cmp_preorder_def eq by simp
qed

lemma neg_preorder:
  assumes p: "cmp_preorder A c"
  shows "cmp_preorder A (\<lambda>a b. - c a b)"
proof -
  have anti: "\<And>x y. x \<in> A \<Longrightarrow> y \<in> A \<Longrightarrow> (c x y < 0) = (0 < c y x)"
    using cmp_anti [OF p] .
  have tr: "\<And>x y z. x \<in> A \<Longrightarrow> y \<in> A \<Longrightarrow> z \<in> A \<Longrightarrow> 0 \<le> c x y \<Longrightarrow> 0 \<le> c y z \<Longrightarrow> 0 \<le> c x z"
  proof -
    fix x y z assume x: "x \<in> A" and y: "y \<in> A" and z: "z \<in> A"
      and xy: "0 \<le> c x y" and yz: "0 \<le> c y z"
    have "c y x \<le> 0" using anti [OF x y] anti [OF y x] xy by linarith
    moreover have "c z y \<le> 0" using anti [OF y z] anti [OF z y] yz by linarith
    ultimately have "c z x \<le> 0" using cmp_trans [OF p z y x] by blast
    then show "0 \<le> c x z" using anti [OF x z] anti [OF z x] by linarith
  qed
  show ?thesis unfolding cmp_preorder_def
  proof (intro conjI ballI impI)
    fix x y assume "x \<in> A" "y \<in> A"
    then show "(- c x y < 0) = (0 < - c y x)" using anti [of y x] by simp
  next
    fix x y z assume "x \<in> A" "y \<in> A" "z \<in> A" and h: "- c x y \<le> 0 \<and> - c y z \<le> 0"
    then show "- c x z \<le> 0" using tr [of x y z] by simp
  qed
qed

lemma sort_cmp_preorder:
  assumes lc: "consistent_compare lc" and ids: "sortBy = ByNumber \<longrightarrow> numeric_ids X"
  shows "cmp_preorder (set X) (sort_cmp lc sortBy order)"
proof (cases "order = Desc")
  case True
  have "sort_cmp lc sortBy order = (\<lambda>a b. - comparison lc sortBy a b)"
    using True by (simp add: sort_cmp_def fun_eq_iff)
  then show ?thesis using neg_preorder [OF comparison_preorder [OF lc ids]] by simp
next
  case False
  have "sort_cmp lc sortBy order = comparison lc sortBy"
    using False by (simp add: sort_cmp_def fun_eq_iff)
  then show ?thesis using comparison_preorder [OF lc ids] by simp
qed

lemma sort_cmp_zero: "(sort_cmp lc sortBy order a b = 0) = (comparison lc sortBy a b = 0)"
  by (simp add: sort_cmp_def)

lemma codeunit_compare_refl: "codeunit_compare x x = 0"
  by (induction x) simp_all

lemma codeunit_compare_anti: "(codeunit_compare x y < 0) = (0 < codeunit_compare y x)"
  by (induction x y rule: codeunit_compare.induct) simp_all

lemma codeunit_compare_trans:
  "codeunit_compare x y \<le> 0 \<Longrightarrow> codeunit_compare y z \<le> 0 \<Longrightarrow> codeunit_compare x z \<le> 0"
proof (induction x y arbitrary: z rule: codeunit_compare.induct)
  case 1
  then show ?case by simp
next
  case (2 y ys)
  then show ?case by (cases z) simp_all
next
  case (3 x xs)
  then show ?case by simp
next
  case (4 x xs y ys)
  show ?case
  proof (cases z)
    case Nil
    then show ?thesis using "4.prems"(2) by simp
  next
    case (Cons w ws)
    have xy: "\<not> (of_char y :: nat) < of_char x"
      using "4.prems"(1) by (simp split: if_splits)
    have yw: "\<not> (of_char w :: nat) < of_char y"
      using "4.prems"(2) Cons by (simp split: if_splits)
    show ?thesis
    proof (cases "(of_char x :: nat) < of_char w")
      case True
      then show ?thesis using Cons by simp
    next
      case False
      then have e1: "(of_char x :: nat) = of_char y" and e2: "(of_char y :: nat) = of_char w"
        using xy yw by linarith+
      have "codeunit_compare xs ys \<le> 0" using "4.prems"(1) e1 by simp
      moreover have "codeunit_compare ys ws \<le> 0" using "4.prems"(2) Cons e2 by simp
      ultimately have "codeunit_compare xs ws \<le> 0"
        using "4.IH" [of ws] e1 by simp
      then show ?thesis using Cons e1 e2 by simp
    qed
  qed
qed

lemma codeunit_consistent: "consistent_compare codeunit_compare"
  unfolding consistent_compare_def
proof (intro conjI allI)
  fix x y z
  show "codeunit_compare x x = 0" by (rule codeunit_compare_refl)
  show "(codeunit_compare x y < 0) = (0 < codeunit_compare y x)" by (rule codeunit_compare_anti)
  show "codeunit_compare x y \<le> 0 \<and> codeunit_compare y z \<le> 0 \<longrightarrow> codeunit_compare x z \<le> 0"
    using codeunit_compare_trans by blast
qed

lemma example_digits: "digits_value ''2'' < 2 ^ 53 \<and> digits_value ''10'' < 2 ^ 53"
  by (simp add: digits_value_def)

lemma example_ids: "numeric_ids example_acps"
  using example_digits
  by (simp add: numeric_ids_def example_acps_def example_acp_def is_digit_def)

lemma example_keys_eval:
  "comparison codeunit_compare ByNumber (example_acps ! 0) (example_acps ! 1) = - 8"
  by code_simp

lemma example_keys:
  "\<forall>i j. i < j \<longrightarrow> j < length example_acps \<longrightarrow>
     comparison codeunit_compare ByNumber (example_acps ! i) (example_acps ! j) \<noteq> 0"
proof (intro allI impI)
  fix i j :: nat
  assume "i < j" and "j < length example_acps"
  then have "i = 0 \<and> j = 1" by (simp add: example_acps_def)
  then show "comparison codeunit_compare ByNumber (example_acps ! i) (example_acps ! j) \<noteq> 0"
    using example_keys_eval by simp
qed

text \<open>
  Claim C7. sortACPs gives a new array: the reference returned is not the one passed,
  and every array that the store held before, the input among them, is as it was. The
  new array is a permutation of the input in which the records that compare equal under
  the key stand in their original order. The collation is a total preorder, and the
  identifiers are numerals when they are the key.
\<close>

theorem sortACPs_stable_permutation:
  assumes lc: "consistent_compare lc"
    and ids: "sortBy = ByNumber \<longrightarrow> numeric_ids (h ! acps)"
    and ref: "acps < length h"
  shows "case sortACPs_store lc h acps sortBy order of
           (h', r) \<Rightarrow>
             r \<noteq> acps \<and> r < length h' \<and> h' ! r = sortACPs lc (h ! acps) sortBy order \<and>
             (\<forall>i < length h. h' ! i = h ! i) \<and>
             mset (h' ! r) = mset (h ! acps) \<and>
             (\<forall>a \<in> set (h ! acps).
                filter (\<lambda>b. comparison lc sortBy a b = 0) (h' ! r)
                  = filter (\<lambda>b. comparison lc sortBy a b = 0) (h ! acps))"
proof -
  let ?X = "h ! acps"
  let ?c = "sort_cmp lc sortBy order"
  have st: "sortACPs_store lc h acps sortBy order
              = ((h @ [?X])[length h := array_sort ?c ?X], length h)"
    by (simp add: sortACPs_store_def spread_def sort_in_place_def)
  have p: "cmp_preorder (set ?X) ?c" using sort_cmp_preorder [OF lc ids] .
  have stable: "\<forall>a \<in> set ?X. filter (\<lambda>b. comparison lc sortBy a b = 0) (array_sort ?c ?X)
                  = filter (\<lambda>b. comparison lc sortBy a b = 0) ?X"
  proof
    fix a assume a: "a \<in> set ?X"
    show "filter (\<lambda>b. comparison lc sortBy a b = 0) (array_sort ?c ?X)
            = filter (\<lambda>b. comparison lc sortBy a b = 0) ?X"
      using array_sort_stable [OF p a, of ?X] by (simp add: sort_cmp_zero)
  qed
  have old: "\<forall>i < length h. ((h @ [?X])[length h := array_sort ?c ?X]) ! i = h ! i"
    by (simp add: nth_append)
  have new: "((h @ [?X])[length h := array_sort ?c ?X]) ! length h = array_sort ?c ?X"
    by simp
  show ?thesis
    unfolding st prod.case new
    using ref old stable by (simp add: sortACPs_def mset_array_sort)
qed

theorem sortACPs_stable_permutation_witness:
  "consistent_compare codeunit_compare \<and> numeric_ids ([example_acps] ! 0) \<and>
   0 < length [example_acps] \<and>
   (case sortACPs_store codeunit_compare [example_acps] 0 ByNumber Desc of
     (h', r) \<Rightarrow>
       r \<noteq> 0 \<and> r < length h' \<and>
       h' ! r = sortACPs codeunit_compare ([example_acps] ! 0) ByNumber Desc \<and>
       (\<forall>i < length [example_acps]. h' ! i = [example_acps] ! i) \<and>
       mset (h' ! r) = mset ([example_acps] ! 0) \<and>
       (\<forall>a \<in> set ([example_acps] ! 0).
          filter (\<lambda>b. comparison codeunit_compare ByNumber a b = 0) (h' ! r)
            = filter (\<lambda>b. comparison codeunit_compare ByNumber a b = 0) ([example_acps] ! 0)))"
proof -
  have ids: "ByNumber = ByNumber \<longrightarrow> numeric_ids ([example_acps] ! 0)"
    using example_ids by simp
  have ref: "0 < length [example_acps]" by simp
  show ?thesis
    using sortACPs_stable_permutation [OF codeunit_consistent ids ref, of Desc]
      codeunit_consistent ids
    by blast
qed

text \<open>
  Claim C2, as amended. When no two records of the collection compare equal under the
  key, sorting the ascending result in descending order gives its exact reverse. The
  collation is a total preorder, and the identifiers are numerals when they are the key.
\<close>

theorem sort_desc_of_asc_reverses:
  assumes lc: "consistent_compare lc"
    and ids: "sortBy = ByNumber \<longrightarrow> numeric_ids X"
    and keys: "\<forall>i j. i < j \<longrightarrow> j < length X \<longrightarrow> comparison lc sortBy (X ! i) (X ! j) \<noteq> 0"
  shows "sortACPs lc (sortACPs lc X sortBy Asc) sortBy Desc = rev (sortACPs lc X sortBy Asc)"
proof -
  let ?c = "comparison lc sortBy"
  have asc: "sort_cmp lc sortBy Asc = ?c" by (simp add: sort_cmp_def fun_eq_iff)
  have desc: "sort_cmp lc sortBy Desc = (\<lambda>a b. - ?c a b)" by (simp add: sort_cmp_def fun_eq_iff)
  have d: "sorted_wrt (\<lambda>a b. ?c a b \<noteq> 0) X"
    using keys by (simp add: sorted_wrt_iff_nth_less)
  have "sorted_wrt (\<lambda>a b. ?c a b < 0) (array_sort ?c X)"
    using array_sort_strict [OF comparison_preorder [OF lc ids] subset_refl d] .
  then show ?thesis
    unfolding sortACPs_def asc desc by (rule array_sort_reverses)
qed

theorem sort_desc_of_asc_reverses_witness:
  "consistent_compare codeunit_compare \<and> numeric_ids example_acps \<and>
   length example_acps = 2 \<and>
   comparison codeunit_compare ByNumber (example_acps ! 0) (example_acps ! 1) \<noteq> 0 \<and>
   sortACPs codeunit_compare (sortACPs codeunit_compare example_acps ByNumber Asc) ByNumber Desc
     = rev (sortACPs codeunit_compare example_acps ByNumber Asc)"
proof -
  have ids: "ByNumber = ByNumber \<longrightarrow> numeric_ids example_acps"
    using example_ids by simp
  have len: "length example_acps = 2" by (simp add: example_acps_def)
  have key: "comparison codeunit_compare ByNumber (example_acps ! 0) (example_acps ! 1) \<noteq> 0"
    using example_keys_eval by simp
  show ?thesis
    using sort_desc_of_asc_reverses [OF codeunit_consistent ids example_keys]
      codeunit_consistent example_ids len key
    by blast
qed

text \<open>
  Claim C2, as stated, fails: two records of the same complexity keep their order in both
  directions, so the descending result is the ascending one and not its reverse.
\<close>

theorem sort_roundtrip_counterexample:
  "sortACPs codeunit_compare (sortACPs codeunit_compare example_acps ByComplexity Asc)
     ByComplexity Desc
   \<noteq> rev (sortACPs codeunit_compare example_acps ByComplexity Asc)"
  by code_simp

section \<open>Searching\<close>

lemma trim_empty_iff: "trim s = [] \<longleftrightarrow> list_all is_space s"
proof -
  have "dropWhile is_space (rev (dropWhile is_space s)) = [] \<longleftrightarrow> dropWhile is_space s = []"
  proof (cases "dropWhile is_space s")
    case Nil
    show ?thesis unfolding Nil by simp
  next
    case (Cons c cs)
    then have "\<not> is_space c" using hd_dropWhile [of is_space s] by force
    then have "c \<in> set (rev (dropWhile is_space s)) \<and> \<not> is_space c" using Cons by simp
    then have "dropWhile is_space (rev (dropWhile is_space s)) \<noteq> []"
      by (metis dropWhile_eq_Nil_conv)
    then show ?thesis using Cons by simp
  qed
  then show ?thesis
    by (simp add: trim_def dropWhile_eq_Nil_conv list_all_iff)
qed

lemma search_match_fields:
  "search_match q acp \<longleftrightarrow> list_ex (\<lambda>f. sublist q f) (search_fields acp)"
  by (cases "abstract acp"; cases "tags acp")
     (auto simp: search_match_def search_fields_def includes_str_def opt_test_def list_ex_iff)

text \<open>
  Claim C6, as amended. searchACPs returns its input when the query is empty or white
  space only. Otherwise it keeps, in order, the records in which the lower-cased query is
  a substring of the identifier as stored, or of the lower-cased title, author name,
  status, track, abstract (if present) or tag.
\<close>

theorem searchACPs_lower_cased_fields:
  "searchACPs acps query =
     (if list_all is_space query then acps
      else filter (\<lambda>acp. list_ex (\<lambda>f. sublist (toLowerCase query) f) (search_fields acp)) acps)
   \<and> subseq (searchACPs acps query) acps"
proof
  show "searchACPs acps query =
     (if list_all is_space query then acps
      else filter (\<lambda>acp. list_ex (\<lambda>f. sublist (toLowerCase query) f) (search_fields acp)) acps)"
    unfolding searchACPs_def trim_empty_iff search_match_fields [abs_def] by (rule refl)
  show "subseq (searchACPs acps query) acps"
    by (simp add: searchACPs_def)
qed

text \<open>
  Claim C6, as stated, fails: the fields are lower-cased before the test, so the query
  \<open>hello\<close> finds the title \<open>Hello\<close>, of which it is not a substring.
\<close>

theorem search_case_counterexample:
  "searchACPs [example_acp ''1'' ''Hello'' None] ''hello''
     \<noteq> spec_search [example_acp ''1'' ''Hello'' None] ''hello''"
  by code_simp

section \<open>Word count and reading time\<close>

lemma tokens_space: "is_space c \<Longrightarrow> tokens (c # cs) = tokens (dropWhile is_space cs)"
proof -
  assume c: "is_space c"
  have "tokens (c # cs) =
          (case dropWhile is_space cs of [] \<Rightarrow> []
           | d # ds \<Rightarrow> takeWhile (\<lambda>x. \<not> is_space x) (d # ds) # tokens (dropWhile (\<lambda>x. \<not> is_space x) ds))"
    using c by (subst tokens.simps) simp
  moreover have "tokens (dropWhile is_space cs) =
          (case dropWhile is_space cs of [] \<Rightarrow> []
           | d # ds \<Rightarrow> takeWhile (\<lambda>x. \<not> is_space x) (d # ds) # tokens (dropWhile (\<lambda>x. \<not> is_space x) ds))"
    by (subst tokens.simps) (simp add: dropWhile_idem)
  ultimately show ?thesis by simp
qed

lemma tokens_word:
  "\<not> is_space c \<Longrightarrow>
   tokens (c # cs) = (c # takeWhile (\<lambda>x. \<not> is_space x) cs) # tokens (dropWhile (\<lambda>x. \<not> is_space x) cs)"
  by (subst tokens.simps) simp

lemma tokens_Nil: "tokens [] = []"
  by (subst tokens.simps) simp

lemma split_ws_tokens:
  "filter (\<lambda>word. length word > 0) (split_ws acc s) =
     (if acc = [] then tokens s
      else (rev acc @ takeWhile (\<lambda>x. \<not> is_space x) s) # tokens (dropWhile (\<lambda>x. \<not> is_space x) s))"
proof (induction acc s rule: split_ws.induct)
  case (1 acc)
  show ?case by (simp add: tokens_Nil)
next
  case (2 acc c cs)
  show ?case
  proof (cases "is_space c")
    case True
    then show ?thesis using "2.IH"(1) by (simp add: tokens_space)
  next
    case False
    then show ?thesis using "2.IH"(2) by (simp add: tokens_word)
  qed
qed

lemma countWords_tokens: "countWords text = length (tokens text)"
  unfolding countWords_def split_ws_tokens by simp

lemma reading_time_bounds:
  "wc \<le> 200 * reading_time wc \<and> 200 * reading_time wc < wc + 200"
proof -
  define t where "t = \<lceil>real wc / 200\<rceil>"
  have c: "of_int t - 1 < real wc / 200 \<and> real wc / 200 \<le> of_int t"
    unfolding t_def by (rule ceiling_correct)
  have "0 \<le> t" unfolding t_def by simp
  then obtain n where n: "t = int n" by (rule nonneg_int_cases)
  have "real wc \<le> 200 * real n" using c n by simp
  then have "real wc \<le> real (200 * n)" by simp
  then have lo: "wc \<le> 200 * n" by (simp only: of_nat_le_iff)
  have "200 * real n < real wc + 200" using c n by simp
  then have "real (200 * n) < real (wc + 200)" by simp
  then have hi: "200 * n < wc + 200" by (simp only: of_nat_less_iff)
  have "reading_time wc = n" unfolding reading_time_def t_def [symmetric] n by simp
  then show ?thesis using lo hi by simp
qed

lemma parse_counts:
  "parseACPMarkdown markdown filePath = Some acp \<Longrightarrow>
   wordCount acp = Some (countWords markdown) \<and>
   readingTime acp = Some (reading_time (countWords markdown))"
  unfolding parseACPMarkdown_def Let_def
  by (cases "numberMatch filePath") (auto split: if_splits)

lemma parse_abstract:
  "parseACPMarkdown markdown filePath = Some acp \<Longrightarrow>
   abstract acp = Some (extractAbstract markdown)"
  unfolding parseACPMarkdown_def Let_def
  by (cases "numberMatch filePath") (auto split: if_splits)

text \<open>
  Claim C8. In every record that extraction gives, the word count is the number of
  white-space-delimited non-empty tokens of the document, and the reading time is the
  ceiling of the word count over 200: the least \<open>t\<close> with \<open>wordCount \<le> 200 * t\<close>. It is
  at least 1 when there is at least one word.
\<close>

theorem readingTime_is_ceiling:
  assumes "parseACPMarkdown markdown filePath = Some acp"
  shows "wordCount acp = Some (length (tokens markdown)) \<and>
         readingTime acp = Some (nat \<lceil>real (length (tokens markdown)) / 200\<rceil>) \<and>
         (\<exists>t. readingTime acp = Some t \<and> length (tokens markdown) \<le> 200 * t \<and>
              200 * t < length (tokens markdown) + 200 \<and>
              (1 \<le> length (tokens markdown) \<longrightarrow> 1 \<le> t))"
proof -
  let ?wc = "length (tokens markdown)"
  have w: "wordCount acp = Some ?wc" and r: "readingTime acp = Some (reading_time ?wc)"
    using parse_counts [OF assms] by (simp_all add: countWords_tokens)
  have b: "?wc \<le> 200 * reading_time ?wc \<and> 200 * reading_time ?wc < ?wc + 200"
    by (rule reading_time_bounds)
  then have "1 \<le> ?wc \<longrightarrow> 1 \<le> reading_time ?wc" by linarith
  then have "\<exists>t. readingTime acp = Some t \<and> ?wc \<le> 200 * t \<and> 200 * t < ?wc + 200 \<and>
              (1 \<le> ?wc \<longrightarrow> 1 \<le> t)"
    using r b by blast
  moreover have "readingTime acp = Some (nat \<lceil>real ?wc / 200\<rceil>)"
    using r unfolding reading_time_def .
  ultimately show ?thesis using w by blast
qed

lemma example_tokens_eval: "length (tokens example_table) = 21"
  by code_simp

theorem readingTime_is_ceiling_witness:
  "parseACPMarkdown example_table example_path = Some example_record \<and>
   wordCount example_record = Some (length (tokens example_table)) \<and>
   readingTime example_record = Some (nat \<lceil>real (length (tokens example_table)) / 200\<rceil>) \<and>
   1 \<le> length (tokens example_table) \<and> readingTime example_record = Some 1"
  using readingTime_is_ceiling [OF example_parse] example_parse example_tokens_eval
  by (simp add: example_record_def)

section \<open>The abstract\<close>

text \<open>
  Claim C9, as amended. When the document has no Abstract heading that matches and the
  fallback loop returns no line, the record's abstract is present and is the empty
  string.
\<close>

theorem absent_abstract_is_empty:
  assumes "abstractMatch markdown = None"
    and "abstract_fallback False (split_char (CHR 0x0A) markdown) = None"
    and "parseACPMarkdown markdown filePath = Some acp"
  shows "abstract acp = Some []"
  using parse_abstract [OF assms(3)] assms(1,2) by (simp add: extractAbstract_def)

lemma example_no_heading_eval: "abstractMatch example_table = None"
  by code_simp

lemma example_no_prose_eval: "abstract_fallback False (split_char (CHR 0x0A) example_table) = None"
  by code_simp

theorem absent_abstract_is_empty_witness:
  "abstractMatch example_table = None \<and>
   abstract_fallback False (split_char (CHR 0x0A) example_table) = None \<and>
   parseACPMarkdown example_table example_path = Some example_record \<and>
   abstract example_record = Some []"
  using absent_abstract_is_empty [OF example_no_heading_eval example_no_prose_eval example_parse]
    example_no_heading_eval example_no_prose_eval example_parse
  by simp

text \<open>
  Claim C9, as stated, fails: on a document with a table and nothing else, neither path
  yields text and the record has an abstract, the empty string.
\<close>

theorem abstract_absent_counterexample:
  "abstractMatch example_table = None \<and>
   abstract_fallback False (split_char (CHR 0x0A) example_table) = None \<and>
   parseACPMarkdown example_table example_path = Some example_record \<and>
   abstract example_record \<noteq> None"
  using example_no_heading_eval example_no_prose_eval example_parse
  by (simp add: example_record_def)

text \<open>
  Claim C4. The fallback path does not truncate as the Abstract-section path does: on a
  first line of prose of 252 characters it keeps the first 200 characters, ending in the
  middle of a word, where the rule of the Abstract section gives the first 196, up to the
  last space.
\<close>

theorem fallback_truncation_eval:
  "200 < length long_line \<and> abstractMatch long_doc = None \<and>
   extractAbstract long_doc = take 200 long_line @ ''...'' \<and>
   long_line ! 199 = CHR ''c'' \<and> long_line ! 200 = CHR ''d'' \<and>
   abstract_of_section long_line = take 196 long_line @ ''...'' \<and>
   extractAbstract long_doc \<noteq> abstract_of_section long_line"
  by code_simp

section \<open>The status cell\<close>

lemma word_not_space: "is_word c \<Longrightarrow> \<not> is_space c"
  by (auto simp: is_word_def is_space_def is_upper_def is_lower_def is_digit_def)

lemma bracket_not_word: "\<not> is_word (CHR ''['')"
  by (simp add: is_word_def is_upper_def is_lower_def is_digit_def)

lemma trim_no_space:
  assumes "\<forall>c\<in>set w. \<not> is_space c"
  shows "trim w = w"
proof (cases w)
  case Nil
  then show ?thesis by (simp add: trim_def)
next
  case (Cons c cs)
  then have h: "\<not> is_space (hd w)" and l: "\<not> is_space (last w)"
    using assms by (simp, metis last_in_set list.distinct(1))
  have 1: "dropWhile is_space w = w" using h by (simp add: dropWhile_eq_self_iff)
  have "hd (rev w) = last w" using Cons by (simp add: hd_rev)
  then have 2: "dropWhile is_space (rev w) = rev w" using l by (simp add: dropWhile_eq_self_iff)
  show ?thesis unfolding trim_def 1 2 by simp
qed

lemma bracket_label_nonempty: "bracket_label s = Some l \<Longrightarrow> l \<noteq> []"
  by (auto simp: bracket_label_def Let_def split: list.splits if_splits)

lemma bracket_label_word: "is_word c \<Longrightarrow> bracket_label (c # cs) = None"
  using bracket_not_word by (auto simp: bracket_label_def Let_def)

lemma statusMatch_skip:
  "\<forall>c\<in>set pre. \<not> is_word c \<Longrightarrow>
   \<forall>k<length pre. bracket_label (drop k (pre @ rest)) = None \<Longrightarrow>
   statusMatch prev (pre @ rest) = statusMatch (if pre = [] then prev else Some (last pre)) rest"
proof (induction pre arbitrary: prev)
  case Nil
  show ?case by simp
next
  case (Cons c pre)
  have nw: "\<not> is_word c" and nws: "\<forall>c\<in>set pre. \<not> is_word c"
    using Cons.prems(1) by simp_all
  have b0: "bracket_label (c # pre @ rest) = None"
    using Cons.prems(2) [rule_format, of 0] by simp
  have bs: "\<forall>k<length pre. bracket_label (drop k (pre @ rest)) = None"
  proof (intro allI impI)
    fix k assume "k < length pre"
    then show "bracket_label (drop k (pre @ rest)) = None"
      using Cons.prems(2) [rule_format, of "Suc k"] by simp
  qed
  have "statusMatch prev ((c # pre) @ rest) = statusMatch (Some c) (pre @ rest)"
    using nw b0 by simp
  also have "\<dots> = statusMatch (if pre = [] then Some c else Some (last pre)) rest"
    using Cons.IH [OF nws bs] .
  finally show ?case by simp
qed

lemma statusMatch_label:
  "bracket_label rest = Some l \<Longrightarrow> statusMatch prev rest = Some (Some l, None)"
  by (cases rest) (simp_all add: bracket_label_def)

lemma statusMatch_word:
  "is_word c \<Longrightarrow> (case prev of None \<Rightarrow> True | Some p \<Rightarrow> \<not> is_word p) \<Longrightarrow>
   statusMatch prev (c # cs) = Some (None, Some (takeWhile is_word (c # cs)))"
  by (simp add: bracket_label_word)

text \<open>
  Claim C3, as amended. parseStatus returns the leftmost token of the cell. Let \<open>pre\<close>
  be a beginning of the cell without a word character and without the start of a
  bracketed label. If a bracketed label starts right after it, the result is that label,
  trimmed; if a word character follows, the result is the word that starts there; if
  nothing follows, the result is \<open>Unknown\<close>.
\<close>

theorem parseStatus_leftmost:
  assumes nw: "\<forall>c\<in>set pre. \<not> is_word c"
    and nb: "\<forall>k<length pre. bracket_label (drop k (pre @ rest)) = None"
  shows "(bracket_label rest = Some l \<longrightarrow> parseStatus (pre @ rest) = trim l) \<and>
         (rest = c # cs \<and> is_word c \<longrightarrow> parseStatus (pre @ rest) = takeWhile is_word (c # cs)) \<and>
         (rest = [] \<longrightarrow> parseStatus (pre @ rest) = ''Unknown'')"
proof -
  let ?prev = "if pre = [] then None else Some (last pre)"
  have skip: "statusMatch None (pre @ rest) = statusMatch ?prev rest"
    using statusMatch_skip [OF nw nb] .
  have boundary: "case ?prev of None \<Rightarrow> True | Some p \<Rightarrow> \<not> is_word p"
    using nw by simp
  have 1: "parseStatus (pre @ rest) = trim l" if "bracket_label rest = Some l"
  proof -
    have "l \<noteq> []" using that by (rule bracket_label_nonempty)
    moreover have "statusMatch None (pre @ rest) = Some (Some l, None)"
      using skip statusMatch_label [OF that] by simp
    ultimately show ?thesis
      unfolding parseStatus_def Let_def by (simp add: or_else_def)
  qed
  have 2: "parseStatus (pre @ rest) = takeWhile is_word (c # cs)" if "rest = c # cs \<and> is_word c"
  proof -
    have w: "is_word c" and r: "rest = c # cs" using that by simp_all
    have t: "trim (takeWhile is_word (c # cs)) = takeWhile is_word (c # cs)"
      by (rule trim_no_space) (metis set_takeWhileD word_not_space)
    have ne: "takeWhile is_word (c # cs) \<noteq> []" using w by simp
    have m: "statusMatch None (pre @ rest) = Some (None, Some (takeWhile is_word (c # cs)))"
      using skip statusMatch_word [OF w boundary, of cs] r by simp
    show ?thesis
      unfolding parseStatus_def m Let_def
      using t ne by (simp add: or_else_def del: takeWhile.simps)
  qed
  have u: "trim ''Unknown'' = ''Unknown''"
    by (rule trim_no_space) (simp add: is_space_def)
  have 3: "parseStatus (pre @ rest) = ''Unknown''" if "rest = []"
  proof -
    have "statusMatch None (pre @ rest) = None" using skip that by simp
    then show ?thesis unfolding parseStatus_def Let_def using u by (simp add: or_else_def)
  qed
  show ?thesis using 1 2 3 by blast
qed

lemma space_not_word: "\<forall>c\<in>set '' ''. \<not> is_word c"
  by (simp add: is_word_def is_upper_def is_lower_def is_digit_def)

lemma space_no_label: "\<forall>k<length '' ''. bracket_label (drop k ('' '' @ rest)) = None"
  by (simp add: bracket_label_def)

lemma label_eval: "bracket_label ''[Proposed](u)'' = Some ''Proposed''"
  by code_simp

lemma word_A_eval: "is_word (CHR ''A'')"
  by code_simp

lemma word_run_eval: "takeWhile is_word ''Activated ([Discussion](u))'' = ''Activated''"
  by code_simp

theorem parseStatus_leftmost_witness:
  "\<not> is_word (CHR '' '') \<and>
   bracket_label ('' '' @ ''[Proposed](u)'') = None \<and>
   bracket_label ''[Proposed](u)'' = Some ''Proposed'' \<and>
   parseStatus ('' '' @ ''[Proposed](u)'') = trim ''Proposed'' \<and>
   is_word (CHR ''A'') \<and>
   parseStatus ('' '' @ ''Activated ([Discussion](u))'') = ''Activated'' \<and>
   parseStatus ('' '' @ []) = ''Unknown''"
proof -
  have a: "parseStatus ('' '' @ ''[Proposed](u)'') = trim ''Proposed''"
    using parseStatus_leftmost [OF space_not_word space_no_label,
        of "''[Proposed](u)''" "''Proposed''" "CHR ''A''" "[]"] label_eval
    by blast
  have "parseStatus ('' '' @ ''Activated ([Discussion](u))'')
          = takeWhile is_word ''Activated ([Discussion](u))''"
    using parseStatus_leftmost [OF space_not_word space_no_label,
        of "''Activated ([Discussion](u))''" "[]" "CHR ''A''" "''ctivated ([Discussion](u))''"]
      word_A_eval
    by blast
  then have b: "parseStatus ('' '' @ ''Activated ([Discussion](u))'') = ''Activated''"
    unfolding word_run_eval .
  have c: "parseStatus ('' '' @ []) = ''Unknown''"
    using parseStatus_leftmost [OF space_not_word space_no_label, of "[]" "[]" "CHR ''A''" "[]"]
    by blast
  have d: "\<not> is_word (CHR '' '')" using space_not_word by simp
  have e: "bracket_label ('' '' @ ''[Proposed](u)'') = None"
    using space_no_label [of "''[Proposed](u)''"] by simp
  show ?thesis
    using a b c d e label_eval word_A_eval
    by blast
qed

text \<open>
  Claim C3, as stated, fails: a bracketed label that comes after a bare word is not
  returned; the word is.
\<close>

theorem status_first_label_counterexample:
  "parseStatus ''Activated ([Discussion](https://example.org/d/1))''
     \<noteq> spec_status ''Activated ([Discussion](https://example.org/d/1))''"
  by code_simp

lemma status_values_eval:
  "parseStatus ''Activated ([Discussion](https://example.org/d/1))'' = ''Activated'' \<and>
   spec_status ''Activated ([Discussion](https://example.org/d/1))'' = ''Discussion''"
  by code_simp

section \<open>Extraction rejects incomplete documents\<close>

lemma split_char_hd: "\<exists>ps. split_char sep s = takeWhile (\<lambda>c. c \<noteq> sep) s # ps"
proof (induction s)
  case Nil
  show ?case by simp
next
  case (Cons c s)
  then obtain ps where "split_char sep s = takeWhile (\<lambda>c. c \<noteq> sep) s # ps" by blast
  then show ?case by simp
qed

lemma split_char_tl_skip:
  "c \<noteq> sep \<Longrightarrow> tl (split_char sep (c # cs)) = tl (split_char sep cs)"
  using split_char_hd [of sep cs] by auto

lemma digit_not_slash: "is_digit c \<Longrightarrow> c \<noteq> CHR ''/''"
  by (auto simp: is_digit_def)

lemma number_tail_digits:
  assumes "number_tail s = Some d"
  shows "d \<noteq> [] \<and> list_all is_digit d \<and> digit_prefixed (takeWhile (\<lambda>c. c \<noteq> CHR ''/'') s)"
proof -
  have d: "d = takeWhile is_digit s" and ne: "d \<noteq> []"
    using assms by (auto simp: number_tail_def Let_def split: list.splits if_splits)
  have all: "list_all is_digit d" unfolding d list_all_iff by (metis set_takeWhileD)
  obtain c cs where s: "s = c # cs" and c: "is_digit c"
    using d ne by (cases s) (auto split: if_splits)
  have "digit_prefixed (takeWhile (\<lambda>c. c \<noteq> CHR ''/'') s)"
    unfolding s using c digit_not_slash [OF c] by (simp add: digit_prefixed_def)
  then show ?thesis using ne all by blast
qed

lemma numberMatch_digits:
  "numberMatch p = Some d \<Longrightarrow>
   d \<noteq> [] \<and> list_all is_digit d \<and> (\<exists>seg\<in>set (tl (split_char (CHR ''/'') p)). digit_prefixed seg)"
proof (induction p)
  case Nil
  then show ?case by simp
next
  case (Cons c cs)
  show ?case
  proof (cases "c = CHR ''/''")
    case False
    then have "numberMatch cs = Some d" using Cons.prems by simp
    then show ?thesis using Cons.IH split_char_tl_skip [OF False] by simp
  next
    case True
    then have tl: "tl (split_char (CHR ''/'') (c # cs)) = split_char (CHR ''/'') cs" by simp
    show ?thesis
    proof (cases "number_tail cs")
      case (Some e)
      then have "e = d" using Cons.prems True by simp
      then have nt: "number_tail cs = Some d" using Some by simp
      obtain ps where "split_char (CHR ''/'') cs = takeWhile (\<lambda>c. c \<noteq> CHR ''/'') cs # ps"
        using split_char_hd by blast
      then have "takeWhile (\<lambda>c. c \<noteq> CHR ''/'') cs \<in> set (split_char (CHR ''/'') cs)" by simp
      then show ?thesis using number_tail_digits [OF nt] tl by metis
    next
      case None
      then have "numberMatch cs = Some d" using Cons.prems True by simp
      then have "d \<noteq> [] \<and> list_all is_digit d \<and>
                 (\<exists>seg\<in>set (tl (split_char (CHR ''/'') cs)). digit_prefixed seg)"
        by (rule Cons.IH)
      moreover have "set (tl (split_char (CHR ''/'') cs)) \<subseteq> set (split_char (CHR ''/'') cs)"
        by (cases "split_char (CHR ''/'') cs") auto
      ultimately show ?thesis unfolding tl by blast
    qed
  qed
qed

lemma no_digit_segment:
  assumes "\<forall>seg\<in>set (split_char (CHR ''/'') p). \<not> digit_prefixed seg"
  shows "numberMatch p = None"
proof (cases "numberMatch p")
  case None
  then show ?thesis .
next
  case (Some d)
  then obtain seg where "seg \<in> set (tl (split_char (CHR ''/'') p))" and "digit_prefixed seg"
    using numberMatch_digits by blast
  moreover have "set (tl (split_char (CHR ''/'') p)) \<subseteq> set (split_char (CHR ''/'') p)"
    by (cases "split_char (CHR ''/'') p") auto
  ultimately show ?thesis using assms by blast
qed

lemma scan_no_header:
  "\<not> f_inTable s \<Longrightarrow> \<forall>line\<in>set ls. \<not> is_header line \<Longrightarrow> scan_table s ls = s"
  by (induction ls) simp_all

lemma table_row_inTable: "f_inTable (table_row s line) = f_inTable s"
  by (simp add: table_row_def)

lemma table_row_title:
  "\<not> includes_str line ''| **Title** |'' \<Longrightarrow> f_title (table_row s line) = f_title s"
  by (simp add: table_row_def)

lemma table_row_status:
  "\<not> includes_str line ''| **Status** |'' \<Longrightarrow> f_status (table_row s line) = f_status s"
  by (simp add: table_row_def)

lemma table_row_track:
  "\<not> includes_str line ''| **Track** |'' \<Longrightarrow> f_track (table_row s line) = f_track s"
  by (simp add: table_row_def)

lemma scan_keeps:
  assumes row: "\<And>s line. \<not> includes_str line m \<Longrightarrow> f (table_row s line) = f s"
    and flag: "\<And>s b. f (s\<lparr>f_inTable := b\<rparr>) = f s"
  shows "\<forall>line\<in>set ls. \<not> includes_str line m \<Longrightarrow> f (scan_table s ls) = f s"
proof (induction ls arbitrary: s)
  case Nil
  show ?case by simp
next
  case (Cons line ls)
  then have here: "\<not> includes_str line m" and rest: "\<forall>line\<in>set ls. \<not> includes_str line m"
    by simp_all
  show ?case using Cons.IH [OF rest] row [OF here] flag by simp
qed

lemma parse_None_if:
  "f_title (scan_table init_fields (split_char (CHR 0x0A) markdown)) = [] \<or>
   f_status (scan_table init_fields (split_char (CHR 0x0A) markdown)) = [] \<or>
   f_track (scan_table init_fields (split_char (CHR 0x0A) markdown)) = [] \<Longrightarrow>
   parseACPMarkdown markdown filePath = None"
  by (auto simp: parseACPMarkdown_def Let_def split: option.splits)

lemma parse_Some_fields:
  "parseACPMarkdown markdown filePath = Some acp \<Longrightarrow>
   title acp \<noteq> [] \<and> status acp \<noteq> [] \<and> track acp \<noteq> [] \<and> numberMatch filePath = Some (number acp)"
  unfolding parseACPMarkdown_def Let_def
  by (cases "numberMatch filePath") (auto split: if_splits)

text \<open>
  Claim C1. parseACPMarkdown is a total function into \<open>null\<close> or a record: no input makes
  it fail otherwise. It gives \<open>null\<close> when no line of the document is a header row,
  when no segment of the path starts with a digit, and when the title, the status or the
  track is left empty by the table scan, as it is when the document has no row for it. A
  record that is returned has a title, a status and a track that are not empty.
\<close>

theorem parseACPMarkdown_rejects:
  "(parseACPMarkdown markdown filePath = None \<or>
      (\<exists>acp. parseACPMarkdown markdown filePath = Some acp \<and>
             title acp \<noteq> [] \<and> status acp \<noteq> [] \<and> track acp \<noteq> []))
   \<and> ((\<forall>line\<in>set (split_char (CHR 0x0A) markdown). \<not> is_header line) \<longrightarrow>
        parseACPMarkdown markdown filePath = None)
   \<and> ((\<forall>seg\<in>set (split_char (CHR ''/'') filePath). \<not> digit_prefixed seg) \<longrightarrow>
        parseACPMarkdown markdown filePath = None)
   \<and> (f_title (scan_table init_fields (split_char (CHR 0x0A) markdown)) = [] \<or>
       f_status (scan_table init_fields (split_char (CHR 0x0A) markdown)) = [] \<or>
       f_track (scan_table init_fields (split_char (CHR 0x0A) markdown)) = [] \<longrightarrow>
        parseACPMarkdown markdown filePath = None)
   \<and> ((\<forall>line\<in>set (split_char (CHR 0x0A) markdown). \<not> includes_str line ''| **Title** |'') \<or>
       (\<forall>line\<in>set (split_char (CHR 0x0A) markdown). \<not> includes_str line ''| **Status** |'') \<or>
       (\<forall>line\<in>set (split_char (CHR 0x0A) markdown). \<not> includes_str line ''| **Track** |'') \<longrightarrow>
        parseACPMarkdown markdown filePath = None)"
proof (intro conjI impI)
  let ?ls = "split_char (CHR 0x0A) markdown"
  show "parseACPMarkdown markdown filePath = None \<or>
      (\<exists>acp. parseACPMarkdown markdown filePath = Some acp \<and>
             title acp \<noteq> [] \<and> status acp \<noteq> [] \<and> track acp \<noteq> [])"
    using parse_Some_fields [of markdown filePath]
    by (cases "parseACPMarkdown markdown filePath") simp_all
  show "parseACPMarkdown markdown filePath = None"
    if "\<forall>line\<in>set ?ls. \<not> is_header line"
  proof -
    have "scan_table init_fields ?ls = init_fields"
      using scan_no_header [OF _ that, of init_fields] by (simp add: init_fields_def)
    then have "f_title (scan_table init_fields ?ls) = []" by (simp add: init_fields_def)
    then show ?thesis using parse_None_if by blast
  qed
  show "parseACPMarkdown markdown filePath = None"
    if "\<forall>seg\<in>set (split_char (CHR ''/'') filePath). \<not> digit_prefixed seg"
    using no_digit_segment [OF that] by (simp add: parseACPMarkdown_def)
  show "parseACPMarkdown markdown filePath = None"
    if "f_title (scan_table init_fields ?ls) = [] \<or> f_status (scan_table init_fields ?ls) = [] \<or>
        f_track (scan_table init_fields ?ls) = []"
    using that by (rule parse_None_if)
  show "parseACPMarkdown markdown filePath = None"
    if h: "(\<forall>line\<in>set ?ls. \<not> includes_str line ''| **Title** |'') \<or>
        (\<forall>line\<in>set ?ls. \<not> includes_str line ''| **Status** |'') \<or>
        (\<forall>line\<in>set ?ls. \<not> includes_str line ''| **Track** |'')"
  proof -
    have t: "f_title (scan_table init_fields ?ls) = []"
      if "\<forall>line\<in>set ?ls. \<not> includes_str line ''| **Title** |''"
      using scan_keeps [of "''| **Title** |''" f_title ?ls init_fields, OF table_row_title _ that]
      by (simp add: init_fields_def)
    have s: "f_status (scan_table init_fields ?ls) = []"
      if "\<forall>line\<in>set ?ls. \<not> includes_str line ''| **Status** |''"
      using scan_keeps [of "''| **Status** |''" f_status ?ls init_fields, OF table_row_status _ that]
      by (simp add: init_fields_def)
    have k: "f_track (scan_table init_fields ?ls) = []"
      if "\<forall>line\<in>set ?ls. \<not> includes_str line ''| **Track** |''"
      using scan_keeps [of "''| **Track** |''" f_track ?ls init_fields, OF table_row_track _ that]
      by (simp add: init_fields_def)
    show ?thesis using h t s k parse_None_if by blast
  qed
qed

lemma no_header_eval: "\<forall>line\<in>set (split_char (CHR 0x0A) no_header_doc). \<not> is_header line"
  by code_simp

lemma no_segment_eval:
  "\<forall>seg\<in>set (split_char (CHR ''/'') ''/src/data/acps-source/ACPs/README.md''). \<not> digit_prefixed seg"
  by code_simp

lemma no_title_eval:
  "\<forall>line\<in>set (split_char (CHR 0x0A) no_title_doc). \<not> includes_str line ''| **Title** |''"
  by code_simp

lemma no_status_eval:
  "\<forall>line\<in>set (split_char (CHR 0x0A) no_status_doc). \<not> includes_str line ''| **Status** |''"
  by code_simp

lemma no_track_eval:
  "\<forall>line\<in>set (split_char (CHR 0x0A) no_track_doc). \<not> includes_str line ''| **Track** |''"
  by code_simp

lemma no_track_scan_eval:
  "f_track (scan_table init_fields (split_char (CHR 0x0A) no_track_doc)) = []"
  by code_simp

theorem parseACPMarkdown_rejects_witness:
  "list_all (\<lambda>line. \<not> is_header line) (split_char (CHR 0x0A) no_header_doc) \<and>
   parseACPMarkdown no_header_doc example_path = None \<and>
   list_all (\<lambda>seg. \<not> digit_prefixed seg)
     (split_char (CHR ''/'') ''/src/data/acps-source/ACPs/README.md'') \<and>
   parseACPMarkdown example_table ''/src/data/acps-source/ACPs/README.md'' = None \<and>
   list_all (\<lambda>line. \<not> includes_str line ''| **Title** |'') (split_char (CHR 0x0A) no_title_doc) \<and>
   parseACPMarkdown no_title_doc example_path = None \<and>
   list_all (\<lambda>line. \<not> includes_str line ''| **Status** |'') (split_char (CHR 0x0A) no_status_doc) \<and>
   parseACPMarkdown no_status_doc example_path = None \<and>
   f_track (scan_table init_fields (split_char (CHR 0x0A) no_track_doc)) = [] \<and>
   parseACPMarkdown no_track_doc example_path = None \<and>
   parseACPMarkdown example_table example_path = Some example_record \<and>
   title example_record \<noteq> [] \<and> status example_record \<noteq> [] \<and> track example_record \<noteq> []"
proof -
  have 1: "parseACPMarkdown no_header_doc example_path = None"
    using parseACPMarkdown_rejects [of no_header_doc example_path] no_header_eval by blast
  have 2: "parseACPMarkdown example_table ''/src/data/acps-source/ACPs/README.md'' = None"
    using parseACPMarkdown_rejects [of example_table "''/src/data/acps-source/ACPs/README.md''"]
      no_segment_eval by blast
  have 3: "parseACPMarkdown no_title_doc example_path = None"
    using parseACPMarkdown_rejects [of no_title_doc example_path] no_title_eval by blast
  have 4: "parseACPMarkdown no_status_doc example_path = None"
    using parseACPMarkdown_rejects [of no_status_doc example_path] no_status_eval by blast
  have 5: "parseACPMarkdown no_track_doc example_path = None"
    using parseACPMarkdown_rejects [of no_track_doc example_path] no_track_scan_eval by blast
  have 6: "title example_record \<noteq> [] \<and> status example_record \<noteq> [] \<and> track example_record \<noteq> []"
    using parseACPMarkdown_rejects [of example_table example_path] example_parse by auto
  show ?thesis
    unfolding list_all_iff
    using 1 2 3 4 5 6 no_header_eval no_segment_eval no_title_eval no_status_eval
      no_track_scan_eval example_parse
    by blast
qed

section \<open>The cache and the lookup by number\<close>

lemma load_acps_numeric: "exact_ids files \<Longrightarrow> numeric_ids (load_acps files)"
proof (induction files)
  case Nil
  show ?case by (simp add: numeric_ids_def)
next
  case (Cons f files)
  obtain path loaded where f: "f = (path, loaded)" by (cases f)
  have here: "case numberMatch path of None \<Rightarrow> True | Some d \<Rightarrow> digits_value d < 2 ^ 53"
    and rest: "exact_ids files"
    using Cons.prems f by (simp_all add: exact_ids_def)
  have IH: "numeric_ids (load_acps files)" using Cons.IH [OF rest] .
  show ?case
  proof (cases loaded)
    case None
    then show ?thesis using IH f by simp
  next
    case (Some markdown)
    show ?thesis
    proof (cases "parseACPMarkdown markdown path")
      case None
      then show ?thesis using IH f Some by simp
    next
      case (Some acp)
      have m: "numberMatch path = Some (number acp)"
        using parse_Some_fields [OF Some] by simp
      then have "number acp \<noteq> [] \<and> list_all is_digit (number acp)"
        using numberMatch_digits by blast
      moreover have "digits_value (number acp) < 2 ^ 53" using here m by simp
      ultimately show ?thesis using IH f \<open>loaded = Some markdown\<close> Some
        by (simp add: numeric_ids_def)
    qed
  qed
qed

lemma desc_preorder:
  assumes "numeric_ids X"
  shows "cmp_preorder (set X) (\<lambda>a b. number_diff (number b) (number a))"
proof -
  have eq: "\<And>a b. a \<in> set X \<Longrightarrow> b \<in> set X \<Longrightarrow>
          number_diff (number b) (number a) = int (digits_value (number b)) - int (digits_value (number a))"
    using assms unfolding numeric_ids_def by (simp add: number_diff_numeric)
  show ?thesis unfolding cmp_preorder_def
  proof (intro conjI ballI impI)
    fix x y assume "x \<in> set X" "y \<in> set X"
    then show "(number_diff (number y) (number x) < 0) = (0 < number_diff (number x) (number y))"
      using eq [of x y] eq [of y x] by simp
  next
    fix x y z assume "x \<in> set X" "y \<in> set X" "z \<in> set X"
      and "number_diff (number y) (number x) \<le> 0 \<and> number_diff (number z) (number y) \<le> 0"
    then show "number_diff (number z) (number x) \<le> 0"
      using eq [of x y] eq [of y z] eq [of x z] by simp
  qed
qed

lemma sorted_desc:
  assumes ids: "numeric_ids X"
  shows "sorted_wrt (\<lambda>a b. digits_value (number b) \<le> digits_value (number a))
           (array_sort (\<lambda>a b. number_diff (number b) (number a)) X)"
proof -
  let ?S = "array_sort (\<lambda>a b. number_diff (number b) (number a)) X"
  have s: "sorted_wrt (\<lambda>a b. number_diff (number b) (number a) \<le> 0) ?S"
    using array_sort_sorted [OF desc_preorder [OF ids] subset_refl] .
  have h: "\<And>a b. a \<in> set ?S \<Longrightarrow> b \<in> set ?S \<Longrightarrow> number_diff (number b) (number a) \<le> 0 \<Longrightarrow>
          digits_value (number b) \<le> digits_value (number a)"
    using ids unfolding numeric_ids_def set_array_sort by (simp add: number_diff_numeric)
  show ?thesis by (rule sorted_wrt_mono_rel [OF _ s]) (rule h)
qed

lemma numeric_ids_sort: "numeric_ids X \<Longrightarrow> numeric_ids (array_sort c X)"
  by (simp add: numeric_ids_def set_array_sort)

lemma fresh_load:
  "exact_ids acpFiles \<Longrightarrow> getAllLocalACPs acpFiles None = (acps, cache) \<Longrightarrow>
   cache = Some acps \<and> cache_inv cache"
proof -
  assume ex: "exact_ids acpFiles"
  assume g: "getAllLocalACPs acpFiles None = (acps, cache)"
  let ?S = "array_sort (\<lambda>a b. number_diff (number b) (number a)) (load_acps acpFiles)"
  have a: "acps = ?S" and c: "cache = Some ?S"
    using g by (auto simp: getAllLocalACPs_def Let_def)
  have "numeric_ids ?S" by (rule numeric_ids_sort [OF load_acps_numeric [OF ex]])
  moreover have "sorted_wrt (\<lambda>a b. digits_value (number b) \<le> digits_value (number a)) ?S"
    by (rule sorted_desc [OF load_acps_numeric [OF ex]])
  ultimately show ?thesis unfolding a c by (simp add: cache_inv_def)
qed

text \<open>
  Claim C10. The cache is always sorted by the value of the identifiers, in descending
  order: the invariant holds of the empty cache and every call of getAllLocalACPs keeps
  it, returning the array that it leaves in the cache. getACPByNumber returns the first
  record of that array whose identifier is the string asked for, so the earliest of
  several with the same identifier, and \<open>null\<close> when there is none. The numbers in the
  paths are in the range where \<open>Number\<close> is exact.
\<close>

theorem cache_sorted_first_match:
  "cache_inv None \<and>
   (cache_inv cachedACPs \<and> exact_ids acpFiles \<longrightarrow>
     (case getAllLocalACPs acpFiles cachedACPs of
        (acps, cache) \<Rightarrow>
          cache = Some acps \<and> cache_inv cache \<and>
          sorted_wrt (\<lambda>a b. digits_value (number b) \<le> digits_value (number a)) acps \<and>
          getACPByNumber acpFiles cachedACPs n = (find (\<lambda>acp. number acp = n) acps, cache) \<and>
          ((\<forall>acp\<in>set acps. number acp \<noteq> n) \<longrightarrow> fst (getACPByNumber acpFiles cachedACPs n) = None) \<and>
          (\<forall>i<length acps. number (acps ! i) = n \<and> (\<forall>j<i. number (acps ! j) \<noteq> n) \<longrightarrow>
             fst (getACPByNumber acpFiles cachedACPs n) = Some (acps ! i))))"
proof (intro conjI impI)
  show "cache_inv None" by (simp add: cache_inv_def)
next
  assume "cache_inv cachedACPs \<and> exact_ids acpFiles"
  then have inv: "cache_inv cachedACPs" and ex: "exact_ids acpFiles" by simp_all
  obtain acps cache where g: "getAllLocalACPs acpFiles cachedACPs = (acps, cache)"
    by (cases "getAllLocalACPs acpFiles cachedACPs")
  have c: "cache = Some acps \<and> cache_inv cache"
  proof (cases cachedACPs)
    case None
    then have "getAllLocalACPs acpFiles None = (acps, cache)" using g by simp
    then show ?thesis by (rule fresh_load [OF ex])
  next
    case (Some c)
    then show ?thesis using g inv by (auto simp: getAllLocalACPs_def)
  qed
  then have srt: "sorted_wrt (\<lambda>a b. digits_value (number b) \<le> digits_value (number a)) acps"
    by (auto simp: cache_inv_def)
  have f: "getACPByNumber acpFiles cachedACPs n = (find (\<lambda>acp. number acp = n) acps, cache)"
    by (simp add: getACPByNumber_def g)
  have none: "fst (getACPByNumber acpFiles cachedACPs n) = None"
    if "\<forall>acp\<in>set acps. number acp \<noteq> n"
    using that unfolding f by (simp add: find_None_iff)
  have some: "\<forall>i<length acps. number (acps ! i) = n \<and> (\<forall>j<i. number (acps ! j) \<noteq> n) \<longrightarrow>
             fst (getACPByNumber acpFiles cachedACPs n) = Some (acps ! i)"
    unfolding f by (auto simp: find_Some_iff)
  show "case getAllLocalACPs acpFiles cachedACPs of
        (acps, cache) \<Rightarrow>
          cache = Some acps \<and> cache_inv cache \<and>
          sorted_wrt (\<lambda>a b. digits_value (number b) \<le> digits_value (number a)) acps \<and>
          getACPByNumber acpFiles cachedACPs n = (find (\<lambda>acp. number acp = n) acps, cache) \<and>
          ((\<forall>acp\<in>set acps. number acp \<noteq> n) \<longrightarrow> fst (getACPByNumber acpFiles cachedACPs n) = None) \<and>
          (\<forall>i<length acps. number (acps ! i) = n \<and> (\<forall>j<i. number (acps ! j) \<noteq> n) \<longrightarrow>
             fst (getACPByNumber acpFiles cachedACPs n) = Some (acps ! i))"
    unfolding g prod.case using c srt f none some by blast
qed

lemma example_load: "getAllLocalACPs example_files None = ([example_record], Some [example_record])"
  by (simp add: getAllLocalACPs_def example_files_def example_parse Let_def)

lemma example_numbers_eval:
  "numberMatch ''/src/data/acps-source/ACPs/7-other/README.md'' = Some ''7'' \<and>
   numberMatch example_path = Some ''42''"
  by code_simp

lemma example_files_exact: "exact_ids example_files"
  using example_numbers_eval by (simp add: exact_ids_def example_files_def digits_value_def)

theorem cache_sorted_first_match_witness:
  "cache_inv None \<and> exact_ids example_files \<and>
   getAllLocalACPs example_files None = ([example_record], Some [example_record]) \<and>
   cache_inv (Some [example_record]) \<and>
   fst (getACPByNumber example_files None ''42'') = Some example_record \<and>
   number example_record \<noteq> ''7'' \<and>
   fst (getACPByNumber example_files None ''7'') = None"
proof -
  have inv: "cache_inv None"
    using cache_sorted_first_match [of None example_files "''42''"] by blast
  have n42: "number example_record = ''42''" by (simp add: example_record_def)
  have n7: "\<forall>acp\<in>set [example_record]. number acp \<noteq> ''7''" by (simp add: example_record_def)
  have a: "cache_inv (Some [example_record]) \<and>
           (\<forall>i<length [example_record].
              number ([example_record] ! i) = ''42'' \<and> (\<forall>j<i. number ([example_record] ! j) \<noteq> ''42'') \<longrightarrow>
              fst (getACPByNumber example_files None ''42'') = Some ([example_record] ! i))"
    using cache_sorted_first_match [of None example_files "''42''"] inv example_files_exact
    unfolding example_load prod.case by blast
  then have "number ([example_record] ! 0) = ''42'' \<and> (\<forall>j<0. number ([example_record] ! j) \<noteq> ''42'') \<longrightarrow>
             fst (getACPByNumber example_files None ''42'') = Some ([example_record] ! 0)"
    by simp
  then have b: "fst (getACPByNumber example_files None ''42'') = Some example_record"
    using n42 by simp
  have c: "fst (getACPByNumber example_files None ''7'') = None"
    using cache_sorted_first_match [of None example_files "''7''"] inv n7 example_files_exact
    unfolding example_load prod.case by blast
  have "number example_record \<noteq> ''7''" using n7 by simp
  then show ?thesis using inv example_load a b c example_files_exact by blast
qed

end
